theory Spec2Isabelle
  imports Main "HOL-Library.AList" "HOL-Library.Sublist"
begin

section \<open>Data model\<close>

text \<open>
  The values the matcher handles are the scalars a decoded DynamoDB attribute can hold:
  a Python \<open>str\<close>, a \<open>Decimal\<close>, a \<open>bool\<close> or \<open>None\<close>. The arithmetic of
  \<open>Decimal\<close> is library code, so the type of decimals is the parameter \<open>'n\<close>.
\<close>

datatype 'n pyval = PStr string | PNum 'n | PBool bool | PNone

text \<open>
  A Python \<open>dict\<close> with string keys keeps its keys in insertion order: an association
  list with distinct keys. \<open>d[k] = v\<close> is \<open>AList.update k v d\<close> (the value is replaced
  in place when \<open>k\<close> is a key, the pair is appended otherwise), \<open>d.get(k)\<close> is
  \<open>map_of d k\<close>, and \<open>k in d\<close> is \<open>k \<in> fst ` set d\<close>.
\<close>

type_synonym 'n item = "(string \<times> 'n pyval) list"

definition has_key :: "'n item \<Rightarrow> string \<Rightarrow> bool" where
  "has_key d k = (k \<in> fst ` set d)"

definition wf_dict :: "'n item \<Rightarrow> bool" where
  "wf_dict d = distinct (map fst d)"

text \<open>
  \<open>f"{v}"\<close>: the string of a value inside an f-string. \<open>dstr\<close> is \<open>str\<close> on a
  \<open>Decimal\<close>.
\<close>

fun py_str :: "('n \<Rightarrow> string) \<Rightarrow> 'n pyval \<Rightarrow> string" where
  "py_str dstr (PStr s) = s"
| "py_str dstr (PNum n) = dstr n"
| "py_str dstr (PBool b) = (if b then ''True'' else ''False'')"
| "py_str dstr PNone = ''None''"

section \<open>The trip merger: \<open>create_completed_trip\<close> (lambda2.py, lines 66-109)\<close>

text \<open>
  The function reads the wall clock twice (\<open>datetime.utcnow().isoformat()\<close>, once as
  the default of the drop-off time and once as the processing timestamp) and draws one
  \<open>uuid.uuid4()\<close>. The three strings it gets are the fields of \<open>ambient\<close>.
\<close>

record ambient =
  now_default :: string
  now_processing :: string
  fresh_uuid :: string

definition skipped_keys :: "string list" where
  "skipped_keys = [''PK'', ''SK'', ''status'', ''processing_timestamp_lambda1'']"

definition overwritten_keys :: "string list" where
  "overwritten_keys = [''trip_id'', ''data_type'']"

text \<open>Lines 93-95: the loop over \<open>start_event.items()\<close>.\<close>

fun copy_start :: "'n item \<Rightarrow> 'n item \<Rightarrow> 'n item" where
  "copy_start completed_trip [] = completed_trip"
| "copy_start completed_trip ((key, v) # rest) =
     copy_start
       (if key \<notin> set skipped_keys then AList.update key v completed_trip
        else completed_trip)
       rest"

text \<open>Lines 98-104: the loop over \<open>end_event.items()\<close>.\<close>

fun copy_end :: "'n item \<Rightarrow> 'n item \<Rightarrow> 'n item" where
  "copy_end completed_trip [] = completed_trip"
| "copy_end completed_trip ((key, v) # rest) =
     copy_end
       (if key \<notin> set skipped_keys then
          (if has_key completed_trip key \<and> key \<notin> set overwritten_keys
           then AList.update (''end_'' @ key) v completed_trip
           else AList.update key v completed_trip)
        else completed_trip)
       rest"

definition base_trip :: "('n \<Rightarrow> string) \<Rightarrow> ambient \<Rightarrow> 'n item \<Rightarrow> 'n item \<Rightarrow> 'n item" where
  "base_trip dstr amb start_event end_event =
     (let trip_id = (case map_of start_event ''PK'' of None \<Rightarrow> PNone | Some v \<Rightarrow> v);
          dropoff_datetime =
            (case map_of end_event ''dropoff_datetime'' of
               None \<Rightarrow> PStr (now_default amb)
             | Some v \<Rightarrow> v)
      in [(''PK'', trip_id),
          (''SK'', PStr (''COMPLETED#'' @ py_str dstr dropoff_datetime)),
          (''trip_id'', trip_id),
          (''status'', PStr ''completed''),
          (''processing_timestamp_lambda2'', PStr (now_processing amb)),
          (''correlation_id'', PStr (fresh_uuid amb))])"

definition create_completed_trip ::
  "('n \<Rightarrow> string) \<Rightarrow> ambient \<Rightarrow> 'n item \<Rightarrow> 'n item \<Rightarrow> 'n item" where
  "create_completed_trip dstr amb start_event end_event =
     AList.update ''data_type'' (PStr ''completed_trip'')
       (copy_end (copy_start (base_trip dstr amb start_event end_event) start_event)
          end_event)"

section \<open>The backing store\<close>

text \<open>
  The table is the DynamoDB service, which is not code of the repository. The model fixes
  what the matcher relies on: items are addressed by the pair of their \<open>PK\<close> and
  \<open>SK\<close> attributes, both strings; \<open>query\<close> returns the items of one \<open>PK\<close> whose
  \<open>SK\<close> starts with a prefix, in store order; \<open>put_item\<close> replaces the item of the same
  key or adds the item; \<open>update_item\<close> sets attributes of the item of a key, creating the
  item when there is none. A query without a \<open>PK\<close> value and a write whose key
  attributes are not two strings are rejected (\<open>ValidationError\<close>). Any call can fail
  besides: \<open>faults\<close> is the schedule of the coming calls, \<open>True\<close> for a call that
  raises. \<open>calls\<close> records every call made, with whether it succeeded, oldest first.

  The world also counts the reads of the wall clock and the draws of \<open>uuid4\<close>; what the
  \<open>n\<close>-th read returns is a parameter (\<open>env\<close>).
\<close>

datatype 'n call =
    Query "string option" string bool
  | Put "'n item" bool
  | Update "'n pyval" "'n pyval" bool

record 'n world =
  rows :: "'n item list"
  faults :: "bool list"
  calls :: "'n call list"
  clock_reads :: nat
  uuid_draws :: nat

record 'n env =
  to_decimal :: "string \<Rightarrow> 'n option"
  str_decimal :: "'n \<Rightarrow> string"
  utcnow_iso :: "nat \<Rightarrow> string"
  uuid4_str :: "nat \<Rightarrow> string"

datatype store_error = TransientError | ValidationError

datatype py_error = KeyError

datatype 'n query_result = QRaised | QResponse "'n item list option"

definition next_fault :: "'n world \<Rightarrow> bool \<times> 'n world" where
  "next_fault w =
     (case faults w of [] \<Rightarrow> (False, w) | b # bs \<Rightarrow> (b, w\<lparr>faults := bs\<rparr>))"

definition log_call :: "'n call \<Rightarrow> 'n world \<Rightarrow> 'n world" where
  "log_call c w = w\<lparr>calls := calls w @ [c]\<rparr>"

definition item_key :: "'n item \<Rightarrow> 'n pyval option \<times> 'n pyval option" where
  "item_key it = (map_of it ''PK'', map_of it ''SK'')"

fun valid_key :: "'n pyval option \<times> 'n pyval option \<Rightarrow> bool" where
  "valid_key (Some (PStr pk), Some (PStr sk)) = True"
| "valid_key other = False"

definition matches :: "string \<Rightarrow> string \<Rightarrow> 'n item \<Rightarrow> bool" where
  "matches pk sk_prefix it =
     (map_of it ''PK'' = Some (PStr pk) \<and>
      (case map_of it ''SK'' of Some (PStr sk) \<Rightarrow> prefix sk_prefix sk | other \<Rightarrow> False))"

definition query :: "'n world \<Rightarrow> string option \<Rightarrow> string \<Rightarrow> 'n query_result \<times> 'n world" where
  "query w pk sk_prefix =
     (let (failed, w1) = next_fault w in
      if failed then (QRaised, log_call (Query pk sk_prefix False) w1)
      else (case pk of
              None \<Rightarrow> (QRaised, log_call (Query pk sk_prefix False) w1)
            | Some p \<Rightarrow>
                (QResponse (Some (filter (matches p sk_prefix) (rows w1))),
                 log_call (Query pk sk_prefix True) w1)))"

fun upsert :: "'n item \<Rightarrow> 'n item list \<Rightarrow> 'n item list" where
  "upsert it [] = [it]"
| "upsert it (r # rs) = (if item_key r = item_key it then it # rs else r # upsert it rs)"

definition put_item :: "'n world \<Rightarrow> 'n item \<Rightarrow> (store_error + unit) \<times> 'n world" where
  "put_item w it =
     (let (failed, w1) = next_fault w in
      if failed then (Inl TransientError, log_call (Put it False) w1)
      else if \<not> valid_key (item_key it) then (Inl ValidationError, log_call (Put it False) w1)
      else (Inr (), log_call (Put it True) (w1\<lparr>rows := upsert it (rows w1)\<rparr>)))"

fun set_attrs ::
  "'n pyval \<Rightarrow> 'n pyval \<Rightarrow> (string \<times> 'n pyval) list \<Rightarrow> 'n item list \<Rightarrow> 'n item list" where
  "set_attrs pk sk attrs [] =
     [fold (\<lambda>(k, v). AList.update k v) attrs [(''PK'', pk), (''SK'', sk)]]"
| "set_attrs pk sk attrs (r # rs) =
     (if item_key r = (Some pk, Some sk) then fold (\<lambda>(k, v). AList.update k v) attrs r # rs
      else r # set_attrs pk sk attrs rs)"

definition update_item ::
  "'n world \<Rightarrow> 'n pyval \<Rightarrow> 'n pyval \<Rightarrow> (string \<times> 'n pyval) list \<Rightarrow>
   (store_error + unit) \<times> 'n world" where
  "update_item w pk sk attrs =
     (let (failed, w1) = next_fault w in
      if failed then (Inl TransientError, log_call (Update pk sk False) w1)
      else if \<not> valid_key (Some pk, Some sk) then
        (Inl ValidationError, log_call (Update pk sk False) w1)
      else (Inr (), log_call (Update pk sk True) (w1\<lparr>rows := set_attrs pk sk attrs (rows w1)\<rparr>)))"

definition utcnow :: "'n env \<Rightarrow> 'n world \<Rightarrow> string \<times> 'n world" where
  "utcnow env w = (utcnow_iso env (clock_reads w), w\<lparr>clock_reads := Suc (clock_reads w)\<rparr>)"

definition uuid4 :: "'n env \<Rightarrow> 'n world \<Rightarrow> string \<times> 'n world" where
  "uuid4 env w = (uuid4_str env (uuid_draws w), w\<lparr>uuid_draws := Suc (uuid_draws w)\<rparr>)"

section \<open>The counterpart locator: \<open>find_counterpart_event\<close> (lines 27-63)\<close>

text \<open>
  Lines 54-63 on what \<open>table.query\<close> did: it raised (\<open>QRaised\<close>), or it returned a
  response, with or without an \<open>Items\<close> entry. \<open>response['Items']\<close> on a response
  without the entry raises \<open>KeyError\<close>, which line 61 catches like any other exception.
  \<open>None\<close> is Python's \<open>None\<close>.
\<close>

definition counterpart_of :: "'n query_result \<Rightarrow> 'n item option" where
  "counterpart_of response =
     (case response of
        QRaised \<Rightarrow> None
      | QResponse None \<Rightarrow> None
      | QResponse (Some its) \<Rightarrow> (case its of [] \<Rightarrow> None | it # others \<Rightarrow> Some it))"

definition find_counterpart_event ::
  "'n world \<Rightarrow> string option \<Rightarrow> string \<Rightarrow> 'n item option \<times> 'n world" where
  "find_counterpart_event w trip_id data_type =
     (let counterpart_data_type = (if data_type = ''trip_start'' then ''trip_end'' else ''trip_start'');
          sk_prefix = ''RAW#'' @ counterpart_data_type @ ''#'';
          (response, w1) = query w trip_id sk_prefix
      in (counterpart_of response, w1))"

section \<open>The completion writer (lines 112-166)\<close>

text \<open>
  \<open>update_event_status\<close>: \<open>item['PK']\<close> and \<open>item['SK']\<close> are read inside the
  \<open>try\<close>; a missing key raises \<open>KeyError\<close>, and the handler's \<open>print\<close> reads the
  same keys again, so the \<open>KeyError\<close> leaves the function (\<open>Inl KeyError\<close>). A failure
  of the store call is caught and gives \<open>False\<close>.
\<close>

definition update_event_status ::
  "'n env \<Rightarrow> 'n world \<Rightarrow> 'n item \<Rightarrow> string \<Rightarrow> (py_error + bool) \<times> 'n world" where
  "update_event_status env w it new_status =
     (case (map_of it ''PK'', map_of it ''SK'') of
        (Some pk, Some sk) \<Rightarrow>
          (let (processed_at, w1) = utcnow env w;
               (r, w2) = update_item w1 pk sk
                 [(''status'', PStr new_status), (''processed_at'', PStr processed_at)]
           in (case r of Inr u \<Rightarrow> (Inr True, w2) | Inl e \<Rightarrow> (Inr False, w2)))
      | other \<Rightarrow> (Inl KeyError, w))"

text \<open>
  \<open>put_item_with_retry\<close>: the \<open>while\<close> loop from a given \<open>retry_count\<close>. Falling out
  of the loop (only when \<open>max_retries \<le> 0\<close>) returns Python's \<open>None\<close>.
\<close>

function put_item_with_retry_from ::
  "'n world \<Rightarrow> 'n item \<Rightarrow> int \<Rightarrow> int \<Rightarrow> bool option \<times> 'n world" where
  "put_item_with_retry_from w it max_retries retry_count =
     (if retry_count < max_retries then
        (case put_item w it of
           (Inr u, w1) \<Rightarrow> (Some True, w1)
         | (Inl e, w1) \<Rightarrow>
             (if retry_count + 1 \<ge> max_retries then (Some False, w1)
              else put_item_with_retry_from w1 it max_retries (retry_count + 1)))
      else (None, w))"
  by pat_completeness auto
termination
  by (relation "measure (\<lambda>(w, it, max_retries, retry_count). nat (max_retries - retry_count))")
     auto

definition put_item_with_retry :: "'n world \<Rightarrow> 'n item \<Rightarrow> int \<Rightarrow> bool option \<times> 'n world" where
  "put_item_with_retry w it max_retries = put_item_with_retry_from w it max_retries 0"

section \<open>The stream dispatcher: \<open>lambda_handler\<close> (lines 169-265)\<close>

text \<open>
  An attribute of a stream image carries one type tag: \<open>{'S': ...}\<close>, \<open>{'N': ...}\<close>,
  \<open>{'BOOL': ...}\<close>, \<open>{'NULL': ...}\<close>, or a tag the handler does not read.
  A stream record has its \<open>eventName\<close> and, under \<open>dynamodb\<close>, its \<open>NewImage\<close>;
  either of the last two can be missing.
\<close>

datatype attr = AttrS string | AttrN string | AttrBOOL bool | AttrNULL | AttrOther

type_synonym image = "(string \<times> attr) list"

datatype ddb_part = NoDynamodb | NoNewImage | NewImage image

record stream_record =
  eventName :: string
  dynamodb :: ddb_part

record response =
  statusCode :: int
  body :: string

text \<open>\<open>ddb_item.get(k, {}).get('S')\<close>.\<close>

definition get_S :: "image \<Rightarrow> string \<Rightarrow> string option" where
  "get_S ddb_item k = (case map_of ddb_item k of Some (AttrS s) \<Rightarrow> Some s | other \<Rightarrow> None)"

text \<open>
  Lines 217-228: the loop that fills \<open>event_item\<close>. \<open>Decimal(...)\<close> raises on a string
  that is no number (\<open>to_decimal\<close> gives \<open>None\<close>); the result is then \<open>None\<close>.
\<close>

fun decode_image :: "(string \<Rightarrow> 'n option) \<Rightarrow> 'n item \<Rightarrow> image \<Rightarrow> 'n item option" where
  "decode_image dec event_item [] = Some event_item"
| "decode_image dec event_item ((key, a) # rest) =
     (case a of
        AttrS s \<Rightarrow> decode_image dec (AList.update key (PStr s) event_item) rest
      | AttrN n \<Rightarrow>
          (case dec n of
             None \<Rightarrow> None
           | Some d \<Rightarrow> decode_image dec (AList.update key (PNum d) event_item) rest)
      | AttrBOOL b \<Rightarrow> decode_image dec (AList.update key (PBool b) event_item) rest
      | AttrNULL \<Rightarrow> decode_image dec (AList.update key PNone event_item) rest
      | AttrOther \<Rightarrow> decode_image dec event_item rest)"

text \<open>Lines 237-242: which of the two events is the start and which the end.\<close>

definition start_end_roles :: "string \<Rightarrow> 'n item \<Rightarrow> 'n item \<Rightarrow> 'n item \<times> 'n item" where
  "start_end_roles data_type event_item counterpart_item =
     (if data_type = ''trip_start'' then (event_item, counterpart_item)
      else (counterpart_item, event_item))"

text \<open>The three ambient reads of \<open>create_completed_trip\<close>, in the order of the source.\<close>

definition read_ambient :: "'n env \<Rightarrow> 'n world \<Rightarrow> ambient \<times> 'n world" where
  "read_ambient env w =
     (let (t1, w1) = utcnow env w;
          (t2, w2) = utcnow env w1;
          (u, w3) = uuid4 env w2
      in (\<lparr>now_default = t1, now_processing = t2, fresh_uuid = u\<rparr>, w3))"

text \<open>
  Lines 236-253: merge, write, and mark both source events. An exception that leaves
  \<open>update_event_status\<close> is caught at line 257, which ends the record.
\<close>

definition complete_pair ::
  "'n env \<Rightarrow> 'n world \<Rightarrow> string \<Rightarrow> 'n item \<Rightarrow> 'n item \<Rightarrow> 'n world" where
  "complete_pair env w data_type event_item counterpart_item =
     (let (start_event, end_event) = start_end_roles data_type event_item counterpart_item;
          (amb, w1) = read_ambient env w;
          completed_trip = create_completed_trip (str_decimal env) amb start_event end_event;
          (ok, w2) = put_item_with_retry w1 completed_trip 3
      in if ok = Some True then
           (case update_event_status env w2 event_item ''processed_by_matcher'' of
              (Inl e, w3) \<Rightarrow> w3
            | (Inr b, w3) \<Rightarrow>
                snd (update_event_status env w3 counterpart_item ''processed_by_matcher''))
         else w2)"

text \<open>
  Lines 184-260: the body of the loop over the records. Every \<open>continue\<close>, and every
  exception caught at line 257, leaves the world as it is at that point. The \<open>print\<close>
  calls are not part of the model.
\<close>

definition process_record :: "'n env \<Rightarrow> 'n world \<Rightarrow> stream_record \<Rightarrow> 'n world" where
  "process_record env w record =
     (if eventName record \<noteq> ''INSERT'' then w
      else (case dynamodb record of
              NoDynamodb \<Rightarrow> w
            | NoNewImage \<Rightarrow> w
            | NewImage ddb_item \<Rightarrow>
                (let pk = get_S ddb_item ''PK'';
                     sk = (case get_S ddb_item ''SK'' of None \<Rightarrow> [] | Some s \<Rightarrow> s)
                 in if \<not> prefix ''RAW#'' sk then w
                    else (case get_S ddb_item ''data_type'' of
                            None \<Rightarrow> w
                          | Some data_type \<Rightarrow>
                              if data_type = [] \<or>
                                 data_type \<notin> set [''trip_start'', ''trip_end'']
                              then w
                              else (case decode_image (to_decimal env) [] ddb_item of
                                      None \<Rightarrow> w
                                    | Some event_item \<Rightarrow>
                                        (let (counterpart_item, w1) =
                                               find_counterpart_event w pk data_type
                                         in (case counterpart_item of
                                               None \<Rightarrow> w1
                                             | Some cp \<Rightarrow>
                                                 if cp = [] then w1
                                                 else complete_pair env w1 data_type
                                                        event_item cp)))))))"

definition lambda_handler ::
  "'n env \<Rightarrow> 'n world \<Rightarrow> stream_record list option \<Rightarrow> response \<times> 'n world" where
  "lambda_handler env w event =
     (case event of
        None \<Rightarrow> (\<lparr>statusCode = 200, body = ''Invalid event structure received.''\<rparr>, w)
      | Some records \<Rightarrow>
          (\<lparr>statusCode = 200, body = ''DynamoDB Stream processing complete.''\<rparr>,
           fold (\<lambda>record w1. process_record env w1 record) records w))"

text \<open>
  Observations on the calls one execution adds to the log: \<open>new_calls\<close> are the calls
  made between two worlds, and \<open>marks_after_write\<close> holds of a list of calls when every
  \<open>Update\<close> in it comes after a successful \<open>Put\<close>.
\<close>

definition new_calls :: "'n world \<Rightarrow> 'n world \<Rightarrow> 'n call list" where
  "new_calls w w' = drop (length (calls w)) (calls w')"

fun marks_after_write :: "bool \<Rightarrow> 'n call list \<Rightarrow> bool" where
  "marks_after_write written [] = True"
| "marks_after_write written (Query pk p ok # cs) = marks_after_write written cs"
| "marks_after_write written (Put it ok # cs) = marks_after_write (written \<or> ok) cs"
| "marks_after_write written (Update pk sk ok # cs) =
     (written \<and> marks_after_write written cs)"

fun is_write :: "'n call \<Rightarrow> bool" where
  "is_write (Query pk p ok) = False"
| "is_write (Put it ok) = True"
| "is_write (Update pk sk ok) = True"

section \<open>The aggregation job (glue_scripts.py)\<close>

text \<open>
  A scanned item becomes a row of cells: a string, a float or \<open>None\<close>. Floats are the
  parameter \<open>'f\<close>; \<open>float(...)\<close> is \<open>to_float\<close>, \<open>None\<close> when it raises.
\<close>

datatype 'f cell = CStr string | CNum 'f | CNone

type_synonym 'f row = "(string \<times> 'f cell) list"

text \<open>Lines 60-68: the loop over \<open>item.items()\<close>.\<close>

fun convert_item :: "(string \<Rightarrow> 'f option) \<Rightarrow> 'f row \<Rightarrow> image \<Rightarrow> 'f row option" where
  "convert_item to_float processed_item [] = Some processed_item"
| "convert_item to_float processed_item ((key, a) # rest) =
     (case a of
        AttrS s \<Rightarrow> convert_item to_float (AList.update key (CStr s) processed_item) rest
      | AttrN n \<Rightarrow>
          (case to_float n of
             None \<Rightarrow> None
           | Some x \<Rightarrow> convert_item to_float (AList.update key (CNum x) processed_item) rest)
      | other \<Rightarrow> convert_item to_float processed_item rest)"

definition cell_of :: "'f row \<Rightarrow> string \<Rightarrow> 'f cell" where
  "cell_of r k = (case map_of r k of None \<Rightarrow> CNone | Some c \<Rightarrow> c)"

text \<open>Lines 72-76: the three required keys, \<open>None\<close> when absent.\<close>

definition ensure_required :: "'f row \<Rightarrow> 'f row" where
  "ensure_required processed_item =
     (let p1 = AList.update ''trip_id'' (cell_of processed_item ''trip_id'') processed_item;
          p2 = AList.update ''pickup_datetime'' (cell_of p1 ''pickup_datetime'') p1
      in AList.update ''fare_amount'' (cell_of p2 ''fare_amount'') p2)"

text \<open>Lines 58-78: one page of a scan response, appended to \<open>items\<close>.\<close>

fun convert_page :: "(string \<Rightarrow> 'f option) \<Rightarrow> 'f row list \<Rightarrow> image list \<Rightarrow> 'f row list option" where
  "convert_page to_float items [] = Some items"
| "convert_page to_float items (it # rest) =
     (case convert_item to_float [] it of
        None \<Rightarrow> None
      | Some processed_item \<Rightarrow>
          convert_page to_float (items @ [ensure_required processed_item]) rest)"

text \<open>
  \<open>dynamodb.scan\<close> either raises or returns a page: its \<open>Items\<close> (possibly absent) and
  whether it has a \<open>LastEvaluatedKey\<close>. The responses the service gives to the
  successive calls are a list; the \<open>while True\<close> loop of lines 47-90 consumes one per
  turn. The outer \<open>None\<close> is a loop that is still asking when the list is used up, the
  inner \<open>None\<close> the \<open>None\<close> the function returns on an exception.
\<close>

datatype scan_response = ScanRaises | ScanReturns "image list option" bool

fun scan_dynamodb_table ::
  "(string \<Rightarrow> 'f option) \<Rightarrow> 'f row list \<Rightarrow> scan_response list \<Rightarrow> 'f row list option option" where
  "scan_dynamodb_table to_float items [] = None"
| "scan_dynamodb_table to_float items (ScanRaises # rest) = Some None"
| "scan_dynamodb_table to_float items (ScanReturns its last_evaluated_key # rest) =
     (case convert_page to_float items (case its of None \<Rightarrow> [] | Some l \<Rightarrow> l) of
        None \<Rightarrow> Some None
      | Some items' \<Rightarrow>
          if \<not> last_evaluated_key then Some (Some items')
          else scan_dynamodb_table to_float items' rest)"

text \<open>
  A scan of a table that does not fail: the table's items come in pages, every page but
  the last with a \<open>LastEvaluatedKey\<close>.
\<close>

fun scan_of_pages :: "image list list \<Rightarrow> scan_response list" where
  "scan_of_pages [] = [ScanReturns (Some []) False]"
| "scan_of_pages [p] = [ScanReturns (Some p) False]"
| "scan_of_pages (p # q # ps) = ScanReturns (Some p) True # scan_of_pages (q # ps)"

text \<open>
  The pandas operations of lines 127-174 are parameters: \<open>to_date\<close> is
  \<open>pd.to_datetime(..., errors="coerce")\<close> followed by \<open>.dt.date\<close> on one cell (\<open>None\<close>
  for \<open>NaT\<close>), \<open>to_numeric\<close> is \<open>pd.to_numeric(..., errors="coerce")\<close> on one cell
  (\<open>None\<close> for \<open>NaN\<close>), and the four aggregates work on the fares of one group.
\<close>

record ('d, 'f) pandas =
  to_date :: "'f cell \<Rightarrow> 'd option"
  to_numeric :: "'f cell \<Rightarrow> 'f option"
  agg_sum :: "'f list \<Rightarrow> 'f"
  agg_mean :: "'f list \<Rightarrow> 'f"
  agg_max :: "'f list \<Rightarrow> 'f"
  agg_min :: "'f list \<Rightarrow> 'f"

record ('d, 'f) clean_row =
  trip_id_cell :: "'f cell"
  pickup_date :: 'd
  fare_amount :: 'f

record ('d, 'f) kpi =
  kpi_date :: 'd
  total_fare :: 'f
  trip_count :: nat
  average_fare :: 'f
  maximum_fare :: 'f
  minimum_fare :: 'f

text \<open>Lines 127-138 and 147: the rows left after the two \<open>dropna\<close>.\<close>

definition usable :: "('d, 'f) pandas \<Rightarrow> 'f row \<Rightarrow> bool" where
  "usable pd r =
     (to_date pd (cell_of r ''pickup_datetime'') \<noteq> None \<and>
      to_numeric pd (cell_of r ''fare_amount'') \<noteq> None)"

definition clean :: "('d, 'f) pandas \<Rightarrow> 'f row \<Rightarrow> ('d, 'f) clean_row option" where
  "clean pd r =
     (case to_date pd (cell_of r ''pickup_datetime'') of
        None \<Rightarrow> None
      | Some d \<Rightarrow>
          (case to_numeric pd (cell_of r ''fare_amount'') of
             None \<Rightarrow> None
           | Some x \<Rightarrow> Some \<lparr>trip_id_cell = cell_of r ''trip_id'', pickup_date = d,
                              fare_amount = x\<rparr>))"

definition clean_frame :: "('d, 'f) pandas \<Rightarrow> 'f row list \<Rightarrow> ('d, 'f) clean_row list" where
  "clean_frame pd items = List.map_filter (clean pd) items"

text \<open>Lines 150-188: one KPI row per pickup date, dates in ascending order.\<close>

definition kpi_of_group ::
  "('d, 'f) pandas \<Rightarrow> 'd \<Rightarrow> ('d, 'f) clean_row list \<Rightarrow> ('d, 'f) kpi" where
  "kpi_of_group pd d g =
     \<lparr>kpi_date = d,
      total_fare = agg_sum pd (map fare_amount g),
      trip_count = length (filter (\<lambda>r. trip_id_cell r \<noteq> CNone) g),
      average_fare = agg_mean pd (map fare_amount g),
      maximum_fare = agg_max pd (map fare_amount g),
      minimum_fare = agg_min pd (map fare_amount g)\<rparr>"

definition daily_kpis ::
  "('d::linorder, 'f) pandas \<Rightarrow> ('d, 'f) clean_row list \<Rightarrow> ('d, 'f) kpi list" where
  "daily_kpis pd df =
     map (\<lambda>d. kpi_of_group pd d (filter (\<lambda>r. pickup_date r = d) df))
       (sorted_list_of_set (set (map pickup_date df)))"

text \<open>
  The main script up to the document it publishes: \<open>record_count\<close> and \<open>daily_kpis\<close>.
  \<open>None\<close> is a run that exits without publishing (the scan failed or found nothing);
  a scan that has not returned gives \<open>None\<close> as well.
\<close>

definition glue_job ::
  "(string \<Rightarrow> 'f option) \<Rightarrow> ('d::linorder, 'f) pandas \<Rightarrow> scan_response list \<Rightarrow>
   (nat \<times> ('d, 'f) kpi list) option" where
  "glue_job to_float pd responses =
     (case scan_dynamodb_table to_float [] responses of
        None \<Rightarrow> None
      | Some None \<Rightarrow> None
      | Some (Some dynamodb_items) \<Rightarrow>
          if dynamodb_items = [] then None
          else (let df = clean_frame pd dynamodb_items
                in Some (length df, daily_kpis pd df)))"

section \<open>Observations and sample inputs\<close>

text \<open>
  The fields of a completed trip that come from the clock and from \<open>uuid4\<close>, and a
  record without some of its keys.
\<close>

definition ambient_keys :: "string list" where
  "ambient_keys = [''SK'', ''processing_timestamp_lambda2'', ''correlation_id'']"

definition without :: "string list \<Rightarrow> 'n item \<Rightarrow> 'n item" where
  "without ks d = filter (\<lambda>p. fst p \<notin> set ks) d"

definition same_shape :: "string list \<Rightarrow> 'n item \<Rightarrow> 'n item \<Rightarrow> bool" where
  "same_shape ks d1 d2 = (map fst d1 = map fst d2 \<and> without ks d1 = without ks d2)"

text \<open>A start and an end event of trip \<open>T1\<close>, as the first lambda stores them.\<close>

definition start_T1 :: "nat item" where
  "start_T1 = [(''PK'', PStr ''T1''), (''SK'', PStr ''RAW#trip_start#t0''),
     (''data_type'', PStr ''trip_start''), (''status'', PStr ''pending''),
     (''processing_timestamp_lambda1'', PStr ''p0''), (''trip_id'', PStr ''T1''),
     (''fare'', PNum 12), (''pickup_datetime'', PStr ''t0'')]"

definition end_T1 :: "nat item" where
  "end_T1 = [(''PK'', PStr ''T1''), (''SK'', PStr ''RAW#trip_end#t1''),
     (''data_type'', PStr ''trip_end''), (''status'', PStr ''ended''),
     (''processing_timestamp_lambda1'', PStr ''p1''), (''trip_id'', PStr ''T1''),
     (''fare'', PNum 13), (''dropoff_datetime'', PStr ''t1'')]"

definition amb_A :: ambient where
  "amb_A = \<lparr>now_default = ''c0'', now_processing = ''c1'', fresh_uuid = ''uuid-a''\<rparr>"

definition amb_B :: ambient where
  "amb_B = \<lparr>now_default = ''c5'', now_processing = ''c6'', fresh_uuid = ''uuid-b''\<rparr>"

definition no_decimal :: "nat \<Rightarrow> string" where
  "no_decimal n = ''0''"

text \<open>Further observations on the log: the calls that mark, and the items written.\<close>

fun is_update :: "'n call \<Rightarrow> bool" where
  "is_update (Query pk p ok) = False"
| "is_update (Put it ok) = False"
| "is_update (Update pk sk ok) = True"

fun written_items :: "'n call list \<Rightarrow> 'n item list" where
  "written_items [] = []"
| "written_items (Put it ok # cs) = (if ok then it # written_items cs else written_items cs)"
| "written_items (c # cs) = written_items cs"

text \<open>An item whose \<open>SK\<close> is a string that starts with \<open>RAW#\<close>.\<close>

definition raw_item :: "'n item \<Rightarrow> bool" where
  "raw_item it =
     (case map_of it ''SK'' of Some (PStr sk) \<Rightarrow> prefix ''RAW#'' sk | other \<Rightarrow> False)"

text \<open>A stream record whose image, a Python \<open>dict\<close>, has distinct keys.\<close>

definition wf_record :: "stream_record \<Rightarrow> bool" where
  "wf_record r = (case dynamodb r of NewImage img \<Rightarrow> distinct (map fst img) | other \<Rightarrow> True)"

text \<open>A table that holds the end event of trip \<open>T1\<close>, and the start event's stream record.\<close>

definition world_T1 :: "nat world" where
  "world_T1 = \<lparr>rows = [end_T1], faults = [], calls = [], clock_reads = 0, uuid_draws = 0\<rparr>"

definition env_T1 :: "nat env" where
  "env_T1 = \<lparr>to_decimal = (\<lambda>s. if s = ''12'' then Some 12 else None),
     str_decimal = no_decimal,
     utcnow_iso = (\<lambda>n. if n = 0 then ''c0'' else if n = 1 then ''c1'' else ''c2''),
     uuid4_str = (\<lambda>n. ''uuid-a'')\<rparr>"

definition start_image_T1 :: image where
  "start_image_T1 = [(''PK'', AttrS ''T1''), (''SK'', AttrS ''RAW#trip_start#t0''),
     (''data_type'', AttrS ''trip_start''), (''status'', AttrS ''pending''),
     (''trip_id'', AttrS ''T1''), (''fare'', AttrN ''12'')]"

text \<open>
  The declared kind and the identifier of a stream record, as lines 200 and 209 read
  them: the \<open>S\<close> value of \<open>data_type\<close> and of \<open>PK\<close> in the image.
\<close>

definition declared_kind :: "stream_record \<Rightarrow> string option" where
  "declared_kind r =
     (case dynamodb r of NewImage img \<Rightarrow> get_S img ''data_type'' | other \<Rightarrow> None)"

definition record_identifier :: "stream_record \<Rightarrow> string option" where
  "record_identifier r = (case dynamodb r of NewImage img \<Rightarrow> get_S img ''PK'' | other \<Rightarrow> None)"

definition no_write :: "'n call list \<Rightarrow> bool" where
  "no_write cs = (filter is_write cs = [])"

text \<open>
  The stream record of the start event of \<open>T1\<close>; the same record without its \<open>PK\<close>;
  and a table where the query and the first write succeed and both marking calls fail.
\<close>

definition record_T1 :: stream_record where
  "record_T1 = \<lparr>eventName = ''INSERT'', dynamodb = NewImage start_image_T1\<rparr>"

definition record_no_pk :: stream_record where
  "record_no_pk = \<lparr>eventName = ''INSERT'', dynamodb = NewImage (tl start_image_T1)\<rparr>"

definition world_marking_fails :: "nat world" where
  "world_marking_fails = world_T1\<lparr>faults := [False, False, True, True]\<rparr>"

definition record_other_kind :: stream_record where
  "record_other_kind =
     \<lparr>eventName = ''INSERT'',
      dynamodb = NewImage [(''PK'', AttrS ''T1''), (''SK'', AttrS ''RAW#trip_pause#t0''),
        (''data_type'', AttrS ''trip_pause'')]\<rparr>"

text \<open>
  The row lines 60-78 make of one scanned item (\<open>[]\<close> stands for an item whose
  conversion raises), and a table that holds nothing but the raw start event of a trip,
  with a pickup time and a fare. \<open>sample_pandas\<close> agrees with pandas on that table:
  the date is day 20240501, the fare 12, and a group of one fare has that fare as its sum,
  mean, maximum and minimum.
\<close>

definition scanned_row :: "(string \<Rightarrow> 'f option) \<Rightarrow> image \<Rightarrow> 'f row" where
  "scanned_row to_float it =
     (case convert_item to_float [] it of None \<Rightarrow> [] | Some p \<Rightarrow> ensure_required p)"

definition raw_start_image :: image where
  "raw_start_image = [(''PK'', AttrS ''T7''), (''SK'', AttrS ''RAW#trip_start#t0''),
     (''data_type'', AttrS ''trip_start''), (''status'', AttrS ''pending''),
     (''trip_id'', AttrS ''T7''), (''pickup_datetime'', AttrS ''2024-05-01 10:00:00''),
     (''fare_amount'', AttrN ''12'')]"

definition sample_float :: "string \<Rightarrow> int option" where
  "sample_float s = (if s = ''12'' then Some 12 else None)"

definition sample_pandas :: "(int, int) pandas" where
  "sample_pandas =
     \<lparr>to_date = (\<lambda>c. if c = CStr ''2024-05-01 10:00:00'' then Some 20240501 else None),
      to_numeric = (\<lambda>c. case c of CNum x \<Rightarrow> Some x | other \<Rightarrow> None),
      agg_sum = sum_list,
      agg_mean = (\<lambda>xs. sum_list xs div int (length xs)),
      agg_max = (\<lambda>xs. fold max xs (hd xs)),
      agg_min = (\<lambda>xs. fold min xs (hd xs))\<rparr>"

section \<open>Association lists as dictionaries\<close>

lemma has_key_Nil: "has_key [] k = False"
  by (simp add: has_key_def)

lemma has_key_Cons: "has_key (p # d) k = (fst p = k \<or> has_key d k)"
  by (auto simp: has_key_def)

lemma has_key_update: "has_key (AList.update k v d) k' = (k' = k \<or> has_key d k')"
  by (induction d) (auto simp: has_key_def)


lemma copy_start_keys:
  "has_key (copy_start c s) k = (has_key c k \<or> (has_key s k \<and> k \<notin> set skipped_keys))"
proof (induction s arbitrary: c)
  case Nil
  show ?case by (simp add: has_key_Nil)
next
  case (Cons p s)
  obtain a v where p: "p = (a, v)" by (cases p)
  show ?case
    unfolding p copy_start.simps Cons.IH by (auto simp: has_key_update has_key_Cons)
qed

lemma copy_start_map_of:
  "wf_dict s \<Longrightarrow>
   map_of (copy_start c s) k =
     (if has_key s k \<and> k \<notin> set skipped_keys then map_of s k else map_of c k)"
proof (induction s arbitrary: c)
  case Nil
  then show ?case by (simp add: has_key_Nil)
next
  case (Cons p s)
  obtain a v where p: "p = (a, v)" by (cases p)
  from Cons.prems p have d: "wf_dict s" and a: "\<not> has_key s a" by (auto simp: wf_dict_def has_key_def)
  show ?case
    unfolding p copy_start.simps Cons.IH[OF d] using a by (auto simp: update_conv' has_key_Cons)
qed

section \<open>The two copy loops\<close>

lemma copy_end_mono: "has_key c k \<Longrightarrow> has_key (copy_end c e) k"
proof (induction e arbitrary: c)
  case Nil
  then show ?case by simp
next
  case (Cons p e)
  obtain a v where p: "p = (a, v)" by (cases p)
  show ?case unfolding p copy_end.simps
    by (rule Cons.IH) (simp add: has_key_update Cons.prems)
qed

lemma copy_end_keys_origin:
  "has_key (copy_end c e) k \<Longrightarrow>
     has_key c k \<or> (has_key e k \<and> k \<notin> set skipped_keys) \<or>
     (\<exists>k'. k = ''end_'' @ k' \<and> has_key e k' \<and> k' \<notin> set skipped_keys)"
proof (induction e arbitrary: c)
  case Nil
  then show ?case by simp
next
  case (Cons p e)
  obtain a v where p: "p = (a, v)" by (cases p)
  from Cons.IH[OF Cons.prems[unfolded p copy_end.simps]]
  show ?case
    by (auto simp: p has_key_update has_key_Cons split: if_splits)
qed

lemma copy_end_untouched:
  "has_key c k \<Longrightarrow> \<not> (has_key e k \<and> k \<in> set overwritten_keys) \<Longrightarrow>
   (\<And>k'. has_key e k' \<Longrightarrow> k \<noteq> ''end_'' @ k') \<Longrightarrow>
   map_of (copy_end c e) k = map_of c k"
proof (induction e arbitrary: c)
  case Nil
  then show ?case by simp
next
  case (Cons p e)
  obtain a v where p: "p = (a, v)" by (cases p)
  let ?c' = "(if a \<notin> set skipped_keys then
          (if has_key c a \<and> a \<notin> set overwritten_keys
           then AList.update (''end_'' @ a) v c
           else AList.update a v c)
        else c)"
  have k1: "k \<noteq> ''end_'' @ a" using Cons.prems(3)[of a] by (simp add: p has_key_Cons)
  have k2: "a = k \<Longrightarrow> k \<notin> set overwritten_keys" using Cons.prems(2) by (auto simp: p has_key_Cons)
  have c': "has_key ?c' k" using Cons.prems(1) by (simp add: has_key_update)
  have m: "map_of ?c' k = map_of c k"
    using k1 k2 Cons.prems(1) by (auto simp: update_conv')
  have "map_of (copy_end ?c' e) k = map_of ?c' k"
  proof (rule Cons.IH[OF c'])
    show "\<not> (has_key e k \<and> k \<in> set overwritten_keys)"
      using Cons.prems(2) by (auto simp: has_key_Cons)
    show "\<And>k'. has_key e k' \<Longrightarrow> k \<noteq> ''end_'' @ k'"
      using Cons.prems(3) by (auto simp: has_key_Cons)
  qed
  then show ?case unfolding p copy_end.simps using m by simp
qed

lemma copy_end_renamed:
  "wf_dict e \<Longrightarrow> has_key e k \<Longrightarrow> k \<notin> set skipped_keys \<Longrightarrow> k \<notin> set overwritten_keys \<Longrightarrow>
   has_key c k \<Longrightarrow> map_of (copy_end c e) (''end_'' @ k) = map_of e k"
proof (induction e arbitrary: c)
  case Nil
  then show ?case by (simp add: has_key_Nil)
next
  case (Cons p e)
  obtain a v where p: "p = (a, v)" by (cases p)
  from Cons.prems(1) p have d: "wf_dict e" and a: "\<not> has_key e a"
    by (auto simp: wf_dict_def has_key_def)
  let ?c' = "(if a \<notin> set skipped_keys then
          (if has_key c a \<and> a \<notin> set overwritten_keys
           then AList.update (''end_'' @ a) v c
           else AList.update a v c)
        else c)"
  have c': "has_key ?c' k" using Cons.prems(5) by (simp add: has_key_update)
  show ?case
  proof (cases "a = k")
    case True
    have c'eq: "?c' = AList.update (''end_'' @ k) v c"
      using True Cons.prems by simp
    have "map_of (copy_end ?c' e) (''end_'' @ k) = map_of ?c' (''end_'' @ k)"
    proof (rule copy_end_untouched)
      show "has_key ?c' (''end_'' @ k)" unfolding c'eq by (simp add: has_key_update)
      show "\<not> (has_key e (''end_'' @ k) \<and> ''end_'' @ k \<in> set overwritten_keys)"
        by (simp add: overwritten_keys_def)
      show "\<And>k'. has_key e k' \<Longrightarrow> ''end_'' @ k \<noteq> ''end_'' @ k'"
        using a True by auto
    qed
    also have "\<dots> = Some v" unfolding c'eq by (simp add: update_conv')
    finally show ?thesis unfolding p copy_end.simps using True by simp
  next
    case False
    then have ke: "has_key e k" using Cons.prems(2) by (simp add: p has_key_Cons)
    have "map_of (copy_end ?c' e) (''end_'' @ k) = map_of e k"
      by (rule Cons.IH[OF d ke Cons.prems(3) Cons.prems(4) c'])
    then show ?thesis unfolding p copy_end.simps using False by simp
  qed
qed


section \<open>Fields of the completed trip\<close>

lemma copy_start_skipped:
  "\<not> (has_key s k \<and> k \<notin> set skipped_keys) \<Longrightarrow> map_of (copy_start c s) k = map_of c k"
proof (induction s arbitrary: c)
  case Nil
  show ?case by simp
next
  case (Cons p s)
  obtain a v where p: "p = (a, v)" by (cases p)
  have r: "\<not> (has_key s k \<and> k \<notin> set skipped_keys)" using Cons.prems by (auto simp: has_key_Cons)
  show ?case unfolding p copy_start.simps Cons.IH[OF r]
    using Cons.prems by (auto simp: p has_key_Cons update_conv')
qed

lemma has_key_base_trip:
  "has_key (base_trip dstr amb s e) k =
     (k \<in> {''PK'', ''SK'', ''trip_id'', ''status'', ''processing_timestamp_lambda2'',
            ''correlation_id''})"
  by (auto simp: base_trip_def Let_def has_key_def)

lemma map_of_create_completed_trip:
  "k \<noteq> ''data_type'' \<Longrightarrow>
   map_of (create_completed_trip dstr amb s e) k =
   map_of (copy_end (copy_start (base_trip dstr amb s e) s) e) k"
  by (simp add: create_completed_trip_def update_conv')

lemma has_key_create_completed_trip:
  "has_key (create_completed_trip dstr amb s e) k =
   (k = ''data_type'' \<or> has_key (copy_end (copy_start (base_trip dstr amb s e) s) e) k)"
  by (simp add: create_completed_trip_def has_key_update)

lemma sk_of_completed:
  "map_of (create_completed_trip dstr amb s e) ''SK'' =
   Some (PStr (''COMPLETED#'' @ py_str dstr
     (case map_of e ''dropoff_datetime'' of None \<Rightarrow> PStr (now_default amb) | Some v \<Rightarrow> v)))"
proof -
  have "map_of (create_completed_trip dstr amb s e) ''SK'' =
        map_of (copy_end (copy_start (base_trip dstr amb s e) s) e) ''SK''"
    by (rule map_of_create_completed_trip) simp
  also have "\<dots> = map_of (copy_start (base_trip dstr amb s e) s) ''SK''"
    by (rule copy_end_untouched)
       (simp_all add: copy_start_keys has_key_base_trip overwritten_keys_def)
  also have "\<dots> = map_of (base_trip dstr amb s e) ''SK''"
    by (rule copy_start_skipped) (simp add: skipped_keys_def)
  finally show ?thesis by (simp add: base_trip_def Let_def)
qed

lemma status_of_completed:
  "map_of (create_completed_trip dstr amb s e) ''status'' = Some (PStr ''completed'')"
proof -
  have "map_of (create_completed_trip dstr amb s e) ''status'' =
        map_of (copy_end (copy_start (base_trip dstr amb s e) s) e) ''status''"
    by (rule map_of_create_completed_trip) simp
  also have "\<dots> = map_of (copy_start (base_trip dstr amb s e) s) ''status''"
    by (rule copy_end_untouched)
       (simp_all add: copy_start_keys has_key_base_trip overwritten_keys_def)
  also have "\<dots> = map_of (base_trip dstr amb s e) ''status''"
    by (rule copy_start_skipped) (simp add: skipped_keys_def)
  finally show ?thesis by (simp add: base_trip_def Let_def)
qed

lemma start_field_wins:
  assumes "wf_dict s" and "has_key s k" and "k \<notin> set skipped_keys"
    and "k \<noteq> ''data_type''" and "\<not> (has_key e k \<and> k = ''trip_id'')"
    and "\<And>k'. has_key e k' \<Longrightarrow> k \<noteq> ''end_'' @ k'"
  shows "map_of (create_completed_trip dstr amb s e) k = map_of s k"
proof -
  have "map_of (create_completed_trip dstr amb s e) k =
        map_of (copy_end (copy_start (base_trip dstr amb s e) s) e) k"
    by (rule map_of_create_completed_trip) (rule assms(4))
  also have "\<dots> = map_of (copy_start (base_trip dstr amb s e) s) k"
  proof (rule copy_end_untouched)
    show "has_key (copy_start (base_trip dstr amb s e) s) k"
      using assms(2,3) by (simp add: copy_start_keys)
    show "\<not> (has_key e k \<and> k \<in> set overwritten_keys)"
      using assms(4,5) by (auto simp: overwritten_keys_def)
    show "\<And>k'. has_key e k' \<Longrightarrow> k \<noteq> ''end_'' @ k'" by (rule assms(6))
  qed
  also have "\<dots> = map_of s k"
    using assms(2,3) by (simp add: copy_start_map_of[OF assms(1)])
  finally show ?thesis .
qed

lemma end_field_renamed:
  assumes "wf_dict e" and "has_key e k" and "k \<notin> set skipped_keys"
    and "k \<notin> set overwritten_keys"
    and "has_key s k \<or> has_key (base_trip dstr amb s e) k"
  shows "map_of (create_completed_trip dstr amb s e) (''end_'' @ k) = map_of e k"
proof -
  have "map_of (create_completed_trip dstr amb s e) (''end_'' @ k) =
        map_of (copy_end (copy_start (base_trip dstr amb s e) s) e) (''end_'' @ k)"
    by (rule map_of_create_completed_trip) simp
  also have "\<dots> = map_of e k"
  proof (rule copy_end_renamed[OF assms(1-4)])
    show "has_key (copy_start (base_trip dstr amb s e) s) k"
      using assms(3,5) by (auto simp: copy_start_keys)
  qed
  finally show ?thesis .
qed



lemma has_key_map_fst: "has_key d k = (k \<in> set (map fst d))"
  by (simp add: has_key_def)

lemma without_update:
  "without ks (AList.update k v d) =
     (if k \<in> set ks then without ks d else AList.update k v (without ks d))"
  by (induction d) (auto simp: without_def)

lemma same_shape_update:
  "same_shape ks d1 d2 \<Longrightarrow> same_shape ks (AList.update k v d1) (AList.update k v d2)"
  by (simp add: same_shape_def without_update update_keys)

lemma same_shape_has_key: "same_shape ks d1 d2 \<Longrightarrow> has_key d1 k = has_key d2 k"
  by (simp add: same_shape_def has_key_map_fst)

lemma same_shape_copy_start:
  "same_shape ks c1 c2 \<Longrightarrow> same_shape ks (copy_start c1 s) (copy_start c2 s)"
proof (induction s arbitrary: c1 c2)
  case Nil
  then show ?case by simp
next
  case (Cons p s)
  obtain a v where p: "p = (a, v)" by (cases p)
  show ?case unfolding p copy_start.simps
    by (rule Cons.IH) (simp add: same_shape_update Cons.prems)
qed

lemma same_shape_copy_end:
  "same_shape ks c1 c2 \<Longrightarrow> same_shape ks (copy_end c1 e) (copy_end c2 e)"
proof (induction e arbitrary: c1 c2)
  case Nil
  then show ?case by simp
next
  case (Cons p e)
  obtain a v where p: "p = (a, v)" by (cases p)
  show ?case unfolding p copy_end.simps
    by (rule Cons.IH)
       (simp add: same_shape_update Cons.prems same_shape_has_key[OF Cons.prems])
qed

lemma same_shape_base_trip:
  "same_shape ambient_keys (base_trip dstr amb1 s e) (base_trip dstr amb2 s e)"
  by (simp add: same_shape_def base_trip_def Let_def without_def ambient_keys_def)

lemma same_shape_create_completed_trip:
  "same_shape ambient_keys (create_completed_trip dstr amb1 s e)
     (create_completed_trip dstr amb2 s e)"
  unfolding create_completed_trip_def
  by (intro same_shape_update same_shape_copy_end same_shape_copy_start same_shape_base_trip)

lemma map_of_filter_other:
  "k \<noteq> k' \<Longrightarrow> map_of (filter (\<lambda>p. fst p \<noteq> k') d) k = map_of d k"
  by (induction d) auto

lemma copy_start_filter_skipped:
  "k' \<in> set skipped_keys \<Longrightarrow> copy_start c (filter (\<lambda>p. fst p \<noteq> k') s) = copy_start c s"
  by (induction s arbitrary: c) auto

lemma copy_end_filter_skipped:
  "k' \<in> set skipped_keys \<Longrightarrow> copy_end c (filter (\<lambda>p. fst p \<noteq> k') e) = copy_end c e"
  by (induction e arbitrary: c) auto

lemma base_trip_filter_status:
  "base_trip dstr amb (filter (\<lambda>p. fst p \<noteq> ''status'') s) (filter (\<lambda>p. fst p \<noteq> ''status'') e)
   = base_trip dstr amb s e"
  by (simp add: base_trip_def map_of_filter_other)

lemma create_completed_trip_ignores_status:
  "create_completed_trip dstr amb (filter (\<lambda>p. fst p \<noteq> ''status'') s)
     (filter (\<lambda>p. fst p \<noteq> ''status'') e) = create_completed_trip dstr amb s e"
  by (simp add: create_completed_trip_def base_trip_filter_status copy_start_filter_skipped
       copy_end_filter_skipped skipped_keys_def)

lemma copy_end_keeps_end_key:
  "has_key e k \<Longrightarrow> k \<notin> set skipped_keys \<Longrightarrow> has_key (copy_end c e) k"
proof (induction e arbitrary: c)
  case Nil
  then show ?case by (simp add: has_key_Nil)
next
  case (Cons p e)
  obtain a v where p: "p = (a, v)" by (cases p)
  show ?case
  proof (cases "a = k")
    case True
    show ?thesis unfolding p copy_end.simps
      by (rule copy_end_mono) (use True Cons.prems(2) in \<open>simp add: has_key_update\<close>)
  next
    case False
    then have "has_key e k" using Cons.prems(1) by (simp add: p has_key_Cons)
    then show ?thesis unfolding p copy_end.simps by (rule Cons.IH) (rule Cons.prems(2))
  qed
qed


lemmas eval_merge = create_completed_trip_def base_trip_def has_key_def skipped_keys_def
  overwritten_keys_def start_T1_def end_T1_def amb_A_def amb_B_def wf_dict_def Let_def

lemma completed_T1:
  "create_completed_trip no_decimal amb_A start_T1 end_T1 =
   [(''PK'', PStr ''T1''), (''SK'', PStr ''COMPLETED#t1''), (''trip_id'', PStr ''T1''),
    (''status'', PStr ''completed''), (''processing_timestamp_lambda2'', PStr ''c1''),
    (''correlation_id'', PStr ''uuid-a''), (''data_type'', PStr ''completed_trip''),
    (''fare'', PNum 12), (''pickup_datetime'', PStr ''t0''), (''end_fare'', PNum 13),
    (''dropoff_datetime'', PStr ''t1'')]"
  by (simp add: eval_merge)




section \<open>Claims on the trip merger\<close>

text \<open>
  Claim C2. When the end event carries \<open>dropoff_datetime\<close>, the sequence key of the
  completed trip is \<open>COMPLETED#\<close> followed by that value, whatever the clock, the
  \<open>uuid4\<close> draw and the start event are: two merges of the pair give the same key.
\<close>

theorem C2_sequence_key_from_dropoff:
  assumes "map_of end_event ''dropoff_datetime'' = Some ts"
  shows "map_of (create_completed_trip dstr amb start_event end_event) ''SK'' =
           Some (PStr (''COMPLETED#'' @ py_str dstr ts)) \<and>
         map_of (create_completed_trip dstr amb' start_event' end_event) ''SK'' =
           map_of (create_completed_trip dstr amb start_event end_event) ''SK''"
  by (simp add: sk_of_completed assms)

theorem C2_sequence_key_from_dropoff_witness:
  "map_of end_T1 ''dropoff_datetime'' = Some (PStr ''t1'') \<and>
   map_of (create_completed_trip no_decimal amb_A start_T1 end_T1) ''SK'' =
     Some (PStr ''COMPLETED#t1'') \<and>
   map_of (create_completed_trip no_decimal amb_B [] end_T1) ''SK'' =
     map_of (create_completed_trip no_decimal amb_A start_T1 end_T1) ''SK''"
proof -
  have h: "map_of end_T1 ''dropoff_datetime'' = Some (PStr ''t1'')"
    by (simp add: end_T1_def)
  from C2_sequence_key_from_dropoff[OF h, of no_decimal amb_A start_T1 amb_B "[]"] h
  show ?thesis by simp
qed

text \<open>
  Claim C3, as the code has it. The merge reads the clock and draws a \<open>uuid4\<close>, so it
  is deterministic only up to these reads: two merges of the same start and end events
  have the same keys in the same order and the same values outside \<open>SK\<close>,
  \<open>processing_timestamp_lambda2\<close> and \<open>correlation_id\<close>; and the handler gives the pair
  the same roles whichever half arrived first.
\<close>

theorem C3_merge_deterministic_up_to_ambient:
  "map fst (create_completed_trip dstr amb1 start_event end_event) =
     map fst (create_completed_trip dstr amb2 start_event end_event) \<and>
   without ambient_keys (create_completed_trip dstr amb1 start_event end_event) =
     without ambient_keys (create_completed_trip dstr amb2 start_event end_event) \<and>
   start_end_roles ''trip_start'' start_event end_event =
     start_end_roles ''trip_end'' end_event start_event"
  using same_shape_create_completed_trip[of dstr amb1 start_event end_event amb2]
  by (simp add: same_shape_def start_end_roles_def)

text \<open>
  Claim C3 as stated fails: two merges of the same pair, with the clock and \<open>uuid4\<close>
  giving other values, are different records.
\<close>

theorem C3_counterexample:
  "create_completed_trip no_decimal amb_A start_T1 end_T1 \<noteq>
   create_completed_trip no_decimal amb_B start_T1 end_T1"
  by (simp add: eval_merge)

text \<open>
  Claim C4, as the code has it. The \<open>status\<close> of the completed trip is
  \<open>completed\<close>; the \<open>status\<close> fields of the two events play no part in the merge
  (removing them changes nothing), and the completed trip has an \<open>end_status\<close>
  field exactly when one of the events has a field of that name.
\<close>

theorem C4_status_not_copied:
  "map_of (create_completed_trip dstr amb start_event end_event) ''status'' =
     Some (PStr ''completed'') \<and>
   create_completed_trip dstr amb (filter (\<lambda>p. fst p \<noteq> ''status'') start_event)
     (filter (\<lambda>p. fst p \<noteq> ''status'') end_event) =
     create_completed_trip dstr amb start_event end_event \<and>
   has_key (create_completed_trip dstr amb start_event end_event) ''end_status'' =
     (has_key start_event ''end_status'' \<or> has_key end_event ''end_status'')"
proof (intro conjI)
  show "map_of (create_completed_trip dstr amb start_event end_event) ''status'' =
     Some (PStr ''completed'')"
    by (rule status_of_completed)
  show "create_completed_trip dstr amb (filter (\<lambda>p. fst p \<noteq> ''status'') start_event)
     (filter (\<lambda>p. fst p \<noteq> ''status'') end_event) =
     create_completed_trip dstr amb start_event end_event"
    by (rule create_completed_trip_ignores_status)
  let ?c = "copy_start (base_trip dstr amb start_event end_event) start_event"
  have c: "has_key ?c ''end_status'' = has_key start_event ''end_status''"
    by (simp add: copy_start_keys has_key_base_trip skipped_keys_def)
  have "has_key (copy_end ?c end_event) ''end_status'' =
        (has_key start_event ''end_status'' \<or> has_key end_event ''end_status'')"
  proof
    assume "has_key (copy_end ?c end_event) ''end_status''"
    from copy_end_keys_origin[OF this] show
      "has_key start_event ''end_status'' \<or> has_key end_event ''end_status''"
      by (auto simp: c skipped_keys_def)
  next
    assume "has_key start_event ''end_status'' \<or> has_key end_event ''end_status''"
    then show "has_key (copy_end ?c end_event) ''end_status''"
    proof
      assume "has_key start_event ''end_status''"
      then show ?thesis by (intro copy_end_mono) (simp add: c)
    next
      assume "has_key end_event ''end_status''"
      then show ?thesis by (rule copy_end_keeps_end_key) (simp add: skipped_keys_def)
    qed
  qed
  then show "has_key (create_completed_trip dstr amb start_event end_event) ''end_status'' =
     (has_key start_event ''end_status'' \<or> has_key end_event ''end_status'')"
    by (simp add: has_key_create_completed_trip)
qed

text \<open>
  Claim C4 as stated fails: both events carry \<open>status\<close>, and the completed trip has no
  \<open>end_status\<close> field.
\<close>

theorem C4_counterexample:
  "map_of start_T1 ''status'' = Some (PStr ''pending'') \<and>
   map_of end_T1 ''status'' = Some (PStr ''ended'') \<and>
   map_of (create_completed_trip no_decimal amb_A start_T1 end_T1) ''end_status'' = None"
  unfolding completed_T1 by (simp add: start_T1_def end_T1_def)

text \<open>
  Claim C10. A \<open>correlation_id\<close> or \<open>processing_timestamp_lambda2\<close> field of the start
  event replaces the generated value in the completed trip, while the same field of the
  end event is renamed with the \<open>end_\<close> prefix.
\<close>

theorem C10_start_field_overrides_generated:
  assumes "wf_dict start_event" and "wf_dict end_event"
  shows
    "(has_key start_event ''correlation_id'' \<longrightarrow>
        map_of (create_completed_trip dstr amb start_event end_event) ''correlation_id'' =
        map_of start_event ''correlation_id'') \<and>
     (has_key start_event ''processing_timestamp_lambda2'' \<longrightarrow>
        map_of (create_completed_trip dstr amb start_event end_event)
          ''processing_timestamp_lambda2'' =
        map_of start_event ''processing_timestamp_lambda2'') \<and>
     (has_key end_event ''correlation_id'' \<longrightarrow>
        map_of (create_completed_trip dstr amb start_event end_event) ''end_correlation_id'' =
        map_of end_event ''correlation_id'') \<and>
     (has_key end_event ''processing_timestamp_lambda2'' \<longrightarrow>
        map_of (create_completed_trip dstr amb start_event end_event)
          ''end_processing_timestamp_lambda2'' =
        map_of end_event ''processing_timestamp_lambda2'')"
proof (intro conjI impI)
  assume "has_key start_event ''correlation_id''"
  then show "map_of (create_completed_trip dstr amb start_event end_event) ''correlation_id'' =
        map_of start_event ''correlation_id''"
    by (intro start_field_wins assms(1)) (simp_all add: skipped_keys_def)
next
  assume "has_key start_event ''processing_timestamp_lambda2''"
  then show "map_of (create_completed_trip dstr amb start_event end_event)
          ''processing_timestamp_lambda2'' =
        map_of start_event ''processing_timestamp_lambda2''"
    by (intro start_field_wins assms(1)) (simp_all add: skipped_keys_def)
next
  assume "has_key end_event ''correlation_id''"
  then have "map_of (create_completed_trip dstr amb start_event end_event)
      (''end_'' @ ''correlation_id'') = map_of end_event ''correlation_id''"
    by (intro end_field_renamed assms(2))
       (simp_all add: skipped_keys_def overwritten_keys_def has_key_base_trip)
  then show "map_of (create_completed_trip dstr amb start_event end_event) ''end_correlation_id'' =
        map_of end_event ''correlation_id''" by simp
next
  assume "has_key end_event ''processing_timestamp_lambda2''"
  then have "map_of (create_completed_trip dstr amb start_event end_event)
      (''end_'' @ ''processing_timestamp_lambda2'') =
      map_of end_event ''processing_timestamp_lambda2''"
    by (intro end_field_renamed assms(2))
       (simp_all add: skipped_keys_def overwritten_keys_def has_key_base_trip)
  then show "map_of (create_completed_trip dstr amb start_event end_event)
          ''end_processing_timestamp_lambda2'' =
        map_of end_event ''processing_timestamp_lambda2''" by simp
qed

theorem C10_start_field_overrides_generated_witness:
  "wf_dict ((''correlation_id'', PStr ''mine'') # (''processing_timestamp_lambda2'', PStr ''then'') # start_T1) \<and>
   wf_dict ((''correlation_id'', PStr ''theirs'') # (''processing_timestamp_lambda2'', PStr ''later'') # end_T1) \<and>
   map_of (create_completed_trip no_decimal amb_A
      ((''correlation_id'', PStr ''mine'') # (''processing_timestamp_lambda2'', PStr ''then'') # start_T1)
      ((''correlation_id'', PStr ''theirs'') # (''processing_timestamp_lambda2'', PStr ''later'') # end_T1))
      ''correlation_id'' = Some (PStr ''mine'') \<and>
   map_of (create_completed_trip no_decimal amb_A
      ((''correlation_id'', PStr ''mine'') # (''processing_timestamp_lambda2'', PStr ''then'') # start_T1)
      ((''correlation_id'', PStr ''theirs'') # (''processing_timestamp_lambda2'', PStr ''later'') # end_T1))
      ''processing_timestamp_lambda2'' = Some (PStr ''then'') \<and>
   map_of (create_completed_trip no_decimal amb_A
      ((''correlation_id'', PStr ''mine'') # (''processing_timestamp_lambda2'', PStr ''then'') # start_T1)
      ((''correlation_id'', PStr ''theirs'') # (''processing_timestamp_lambda2'', PStr ''later'') # end_T1))
      ''end_correlation_id'' = Some (PStr ''theirs'') \<and>
   map_of (create_completed_trip no_decimal amb_A
      ((''correlation_id'', PStr ''mine'') # (''processing_timestamp_lambda2'', PStr ''then'') # start_T1)
      ((''correlation_id'', PStr ''theirs'') # (''processing_timestamp_lambda2'', PStr ''later'') # end_T1))
      ''end_processing_timestamp_lambda2'' = Some (PStr ''later'')"
proof -
  let ?s = "(''correlation_id'', PStr ''mine'') # (''processing_timestamp_lambda2'', PStr ''then'') # start_T1"
  let ?e = "(''correlation_id'', PStr ''theirs'') # (''processing_timestamp_lambda2'', PStr ''later'') # end_T1"
  have w1: "wf_dict ?s" by (simp add: wf_dict_def start_T1_def)
  have w2: "wf_dict ?e" by (simp add: wf_dict_def end_T1_def)
  from C10_start_field_overrides_generated[OF w1 w2, of no_decimal amb_A] w1 w2
  show ?thesis by (simp add: has_key_def)
qed

section \<open>The store calls and the retry loop\<close>

declare put_item_with_retry_from.simps [simp del]

lemma put_item_cases:
  assumes "put_item w it = (res, w1)"
  shows "(res = Inr () \<and> valid_key (item_key it) \<and> calls w1 = calls w @ [Put it True] \<and>
          rows w1 = upsert it (rows w)) \<or>
         ((\<exists>e. res = Inl e) \<and> calls w1 = calls w @ [Put it False] \<and> rows w1 = rows w)"
  using assms
  by (auto simp: put_item_def next_fault_def log_call_def Let_def
           split: list.splits if_splits)

lemma in_upsert: "it \<in> set (upsert it rs)"
  by (induction rs) auto

lemma retry_loop_calls:
  "rc < m \<Longrightarrow> put_item_with_retry_from w it m rc = (r, w') \<Longrightarrow>
   (\<exists>k. calls w' = calls w @ replicate k (Put it False) @ [Put it True] \<and>
        r = Some True \<and> int k < m - rc \<and> valid_key (item_key it) \<and> it \<in> set (rows w')) \<or>
   (calls w' = calls w @ replicate (nat (m - rc)) (Put it False) \<and> r = Some False \<and>
    rows w' = rows w)"
proof (induction w it m rc arbitrary: r w' rule: put_item_with_retry_from.induct)
  case (1 w it m rc)
  obtain res w1 where p: "put_item w it = (res, w1)" by fastforce
  from put_item_cases[OF p] show ?case
  proof (elim disjE conjE exE)
    assume ok: "res = Inr ()" "valid_key (item_key it)" "calls w1 = calls w @ [Put it True]"
      "rows w1 = upsert it (rows w)"
    from "1.prems" p ok have "r = Some True" "w' = w1"
      by (simp_all add: put_item_with_retry_from.simps[of w it m rc])
    then have "calls w' = calls w @ replicate 0 (Put it False) @ [Put it True] \<and>
        r = Some True \<and> int 0 < m - rc \<and> valid_key (item_key it) \<and> it \<in> set (rows w')"
      using ok "1.prems"(1) by (simp add: in_upsert)
    then show ?thesis by blast
  next
    fix e
    assume bad: "res = Inl e" "calls w1 = calls w @ [Put it False]" "rows w1 = rows w"
    show ?thesis
    proof (cases "m \<le> rc + 1")
      case True
      from "1.prems" p bad True have "r = Some False" "w' = w1"
        by (simp_all add: put_item_with_retry_from.simps[of w it m rc])
      moreover have "nat (m - rc) = 1" using True "1.prems"(1) by simp
      ultimately show ?thesis using bad by simp
    next
      case False
      from "1.prems" p bad False have rec: "put_item_with_retry_from w1 it m (rc + 1) = (r, w')"
        by (simp add: put_item_with_retry_from.simps[of w it m rc])
      have lt: "rc + 1 < m" using False by simp
      have n: "nat (m - rc) = Suc (nat (m - (rc + 1)))" using lt by simp
      from "1.IH"[OF "1.prems"(1) p[symmetric] bad(1) False lt rec] show ?thesis
      proof (elim disjE conjE exE)
        fix k
        assume "calls w' = calls w1 @ replicate k (Put it False) @ [Put it True]"
          "r = Some True" "int k < m - (rc + 1)" "valid_key (item_key it)" "it \<in> set (rows w')"
        then have "calls w' = calls w @ replicate (Suc k) (Put it False) @ [Put it True] \<and>
          r = Some True \<and> int (Suc k) < m - rc \<and> valid_key (item_key it) \<and> it \<in> set (rows w')"
          using bad by simp
        then show ?thesis by blast
      next
        assume "calls w' = calls w1 @ replicate (nat (m - (rc + 1))) (Put it False)"
          "r = Some False" "rows w' = rows w1"
        then show ?thesis using bad n by simp
      qed
    qed
  qed
qed

lemma put_item_with_retry_calls:
  assumes "0 < m" and "put_item_with_retry w it m = (r, w')"
  shows "(\<exists>k. new_calls w w' = replicate k (Put it False) @ [Put it True] \<and>
        r = Some True \<and> k < nat m \<and> valid_key (item_key it) \<and> it \<in> set (rows w')) \<or>
   (new_calls w w' = replicate (nat m) (Put it False) \<and> r = Some False \<and> rows w' = rows w)"
  using retry_loop_calls[OF _ assms(2)[unfolded put_item_with_retry_def]] assms(1)
  by (auto simp: new_calls_def)

section \<open>Claim on the counterpart locator\<close>

text \<open>
  Claim C5, as the code has it. A query that raises, or a response without \<open>Items\<close>,
  makes the locator return \<open>None\<close>, the value it returns when no counterpart is found;
  a failing store call gives \<open>None\<close> whatever the table holds.
\<close>

theorem C5_failed_query_is_not_found:
  "counterpart_of QRaised = None \<and>
   counterpart_of (QResponse None) = None \<and>
   counterpart_of (QResponse (Some [])) = (None :: 'n item option) \<and>
   fst (find_counterpart_event (w\<lparr>faults := True # fs\<rparr>) trip_id data_type) = None"
  by (simp add: counterpart_of_def find_counterpart_event_def query_def next_fault_def Let_def)

theorem C5_counterexample:
  "fst (find_counterpart_event world_T1 (Some ''T1'') ''trip_start'') = Some end_T1 \<and>
   fst (find_counterpart_event (world_T1\<lparr>faults := [True]\<rparr>) (Some ''T1'') ''trip_start'') = None \<and>
   fst (find_counterpart_event (world_T1\<lparr>rows := []\<rparr>) (Some ''T1'') ''trip_start'') = None"
  by (simp add: counterpart_of_def find_counterpart_event_def query_def next_fault_def Let_def
      world_T1_def matches_def end_T1_def log_call_def)

section \<open>Claim on the retry loop\<close>

text \<open>
  Claim C7, as the code has it. The write makes at most \<open>max_retries\<close> attempts (3 in
  the handler), all for the same item; it returns \<open>True\<close> at the first attempt that
  succeeds and \<open>False\<close> after \<open>max_retries\<close> failed attempts. Every exception is
  retried alike: an item whose key the store rejects is attempted \<open>max_retries\<close> times.
\<close>

theorem C7_bounded_retry_on_any_error:
  assumes "0 < max_retries" and "put_item_with_retry w it max_retries = (r, w')"
  shows "length (new_calls w w') \<le> nat max_retries \<and>
         set (new_calls w w') \<subseteq> {Put it True, Put it False} \<and>
         (r = Some True \<and> (\<exists>k. new_calls w w' = replicate k (Put it False) @ [Put it True]) \<or>
          r = Some False \<and> new_calls w w' = replicate (nat max_retries) (Put it False)) \<and>
         (\<not> valid_key (item_key it) \<longrightarrow>
            r = Some False \<and> new_calls w w' = replicate (nat max_retries) (Put it False))"
  using put_item_with_retry_calls[OF assms] by auto

theorem C7_bounded_retry_on_any_error_witness:
  "(0::int) < 3 \<and>
   fst (put_item_with_retry (world_T1\<lparr>faults := [True, True]\<rparr>) start_T1 3) = Some True \<and>
   length (new_calls (world_T1\<lparr>faults := [True, True]\<rparr>)
     (snd (put_item_with_retry (world_T1\<lparr>faults := [True, True]\<rparr>) start_T1 3))) \<le> 3 \<and>
   \<not> valid_key (item_key (tl start_T1)) \<and>
   fst (put_item_with_retry world_T1 (tl start_T1) 3) = Some False"
proof -
  let ?w = "world_T1\<lparr>faults := [True, True]\<rparr>"
  have e1: "put_item_with_retry ?w start_T1 3 =
    (fst (put_item_with_retry ?w start_T1 3), snd (put_item_with_retry ?w start_T1 3))"
    by simp
  have e2: "put_item_with_retry world_T1 (tl start_T1) 3 =
    (fst (put_item_with_retry world_T1 (tl start_T1) 3),
     snd (put_item_with_retry world_T1 (tl start_T1) 3))"
    by simp
  have p: "(0::int) < 3" by simp
  have v: "\<not> valid_key (item_key (tl start_T1))" by (simp add: item_key_def start_T1_def)
  have f1: "fst (put_item_with_retry ?w start_T1 3) = Some True"
    by (simp add: put_item_with_retry_def put_item_with_retry_from.simps put_item_def
        next_fault_def world_T1_def item_key_def start_T1_def log_call_def)
  from C7_bounded_retry_on_any_error[OF p e1] C7_bounded_retry_on_any_error[OF p e2] v f1
  show ?thesis by auto
qed

text \<open>
  Claim C7 as stated fails: an item without \<open>PK\<close> is rejected by the store as
  invalid, a permanent error, and the write is attempted three times.
\<close>

theorem C7_counterexample:
  "fst (put_item world_T1 (tl start_T1)) = Inl ValidationError \<and>
   new_calls world_T1 (snd (put_item_with_retry world_T1 (tl start_T1) 3)) =
     [Put (tl start_T1) False, Put (tl start_T1) False, Put (tl start_T1) False]"
  by (simp add: put_item_with_retry_def put_item_with_retry_from.simps put_item_def
      next_fault_def world_T1_def item_key_def start_T1_def log_call_def new_calls_def)

section \<open>Writing and marking\<close>

lemma marks_after_write_failed_puts:
  "marks_after_write b (replicate k (Put it False) @ cs) = marks_after_write b cs"
  by (induction k) auto

lemma marks_after_write_updates:
  "list_all is_update us \<Longrightarrow> marks_after_write True us"
proof (induction us)
  case Nil
  show ?case by simp
next
  case (Cons c us)
  then show ?case by (cases c) auto
qed

lemma written_items_failed_puts:
  "written_items (replicate k (Put it False) @ cs) = written_items cs"
  by (induction k) auto

lemma written_items_updates: "list_all is_update us \<Longrightarrow> written_items us = []"
proof (induction us)
  case Nil
  show ?case by simp
next
  case (Cons c us)
  then show ?case by (cases c) auto
qed

lemma in_set_attrs:
  "c \<in> set rs \<Longrightarrow> item_key c \<noteq> (Some pk, Some sk) \<Longrightarrow> c \<in> set (set_attrs pk sk attrs rs)"
  by (induction rs) auto

lemma update_item_effect:
  assumes "update_item w pk sk attrs = (res, w1)"
  shows "(\<exists>ok. calls w1 = calls w @ [Update pk sk ok]) \<and>
         (c \<in> set (rows w) \<and> item_key c \<noteq> (Some pk, Some sk) \<longrightarrow> c \<in> set (rows w1))"
  using assms
  by (auto simp: update_item_def next_fault_def log_call_def Let_def in_set_attrs
           split: list.splits if_splits)

lemma update_event_status_effect:
  assumes "update_event_status env w it new_status = (res, w1)"
  shows "(\<exists>us. calls w1 = calls w @ us \<and> list_all is_update us) \<and>
         (c \<in> set (rows w) \<and> map_of c ''SK'' \<noteq> map_of it ''SK'' \<longrightarrow> c \<in> set (rows w1))"
proof (cases "map_of it ''PK''")
  case None
  then show ?thesis using assms by (simp add: update_event_status_def)
next
  case pk: (Some pk)
  show ?thesis
  proof (cases "map_of it ''SK''")
    case None
    then show ?thesis using assms pk by (simp add: update_event_status_def)
  next
    case sk: (Some sk)
    obtain r w2 where u: "update_item (snd (utcnow env w)) pk sk
        [(''status'', PStr new_status), (''processed_at'', PStr (fst (utcnow env w)))] = (r, w2)"
      by fastforce
    have w1: "w1 = w2" using assms pk sk u
      by (auto simp: update_event_status_def Let_def split_beta split: sum.splits)
    have f: "calls (snd (utcnow env w)) = calls w" "rows (snd (utcnow env w)) = rows w"
      by (simp_all add: utcnow_def)
    from update_item_effect[OF u, of c] show ?thesis
      unfolding w1 f using sk by (auto simp: item_key_def)
  qed
qed

lemma read_ambient_frame:
  "calls (snd (read_ambient env w)) = calls w" "rows (snd (read_ambient env w)) = rows w"
  "faults (snd (read_ambient env w)) = faults w"
  by (simp_all add: read_ambient_def utcnow_def uuid4_def Let_def)

lemma raw_item_not_completed:
  assumes "raw_item it"
  shows "map_of (create_completed_trip dstr amb s e) ''SK'' \<noteq> map_of it ''SK''"
proof -
  obtain sk where sk: "map_of it ''SK'' = Some (PStr sk)" and p: "prefix ''RAW#'' sk"
    using assms by (auto simp: raw_item_def split: option.splits pyval.splits)
  from p obtain rest where "sk = ''RAW#'' @ rest" by (auto simp: prefix_def)
  then show ?thesis by (simp add: sk_of_completed sk)
qed

lemma complete_pair_effect:
  assumes "raw_item event_item" and "raw_item counterpart_item"
  shows "\<exists>new. calls (complete_pair env w data_type event_item counterpart_item) = calls w @ new \<and>
           marks_after_write False new \<and> list_all is_write new \<and>
           set (written_items new) \<subseteq>
             set (rows (complete_pair env w data_type event_item counterpart_item))"
proof -
  obtain s e where roles: "start_end_roles data_type event_item counterpart_item = (s, e)"
    by fastforce
  define amb where "amb = fst (read_ambient env w)"
  define w1 where "w1 = snd (read_ambient env w)"
  define c where "c = create_completed_trip (str_decimal env) amb s e"
  obtain ok w2 where put: "put_item_with_retry w1 c 3 = (ok, w2)" by fastforce
  have cp: "complete_pair env w data_type event_item counterpart_item =
      (if ok = Some True then
           (case update_event_status env w2 event_item ''processed_by_matcher'' of
              (Inl e, w3) \<Rightarrow> w3
            | (Inr b, w3) \<Rightarrow>
                snd (update_event_status env w3 counterpart_item ''processed_by_matcher''))
         else w2)"
    by (simp add: complete_pair_def roles Let_def split_beta amb_def[symmetric]
        w1_def[symmetric] c_def[symmetric] put)
  have w1c: "calls w1 = calls w" by (simp add: w1_def read_ambient_frame)
  have ne: "map_of c ''SK'' \<noteq> map_of event_item ''SK''"
    unfolding c_def by (rule raw_item_not_completed[OF assms(1)])
  have nc: "map_of c ''SK'' \<noteq> map_of counterpart_item ''SK''"
    unfolding c_def by (rule raw_item_not_completed[OF assms(2)])
  have pos: "(0::int) < 3" by simp
  from retry_loop_calls[OF pos put[unfolded put_item_with_retry_def]] show ?thesis
  proof (elim disjE conjE exE)
    fix k
    assume n: "calls w2 = calls w1 @ replicate k (Put c False) @ [Put c True]"
      and ok: "ok = Some True" and inr: "c \<in> set (rows w2)"
    have c2: "calls w2 = calls w @ replicate k (Put c False) @ [Put c True]"
      using n by (simp add: w1c)
    obtain r3 w3 where u1: "update_event_status env w2 event_item ''processed_by_matcher'' = (r3, w3)"
      by fastforce
    from update_event_status_effect[OF u1, of c] ne inr
    obtain us1 where us1: "calls w3 = calls w2 @ us1" "list_all is_update us1"
      and in3: "c \<in> set (rows w3)" by auto
    obtain r4 w4 where u2: "update_event_status env w3 counterpart_item ''processed_by_matcher'' = (r4, w4)"
      by fastforce
    from update_event_status_effect[OF u2, of c] nc in3
    obtain us2 where us2: "calls w4 = calls w3 @ us2" "list_all is_update us2"
      and in4: "c \<in> set (rows w4)" by auto
    have upd_w: "list_all is_update us \<Longrightarrow> list_all is_write us" for us :: "'a call list"
    proof (induction us)
      case Nil
      show ?case by simp
    next
      case (Cons x xs)
      then show ?case by (cases x) auto
    qed
    have fin: "\<exists>us. calls w' = calls w2 @ us \<and> list_all is_update us \<and> c \<in> set (rows w')"
      if "w' = w3 \<or> w' = w4" for w'
      using that us1 us2 in3 in4 by auto
    have "complete_pair env w data_type event_item counterpart_item = w3 \<or>
          complete_pair env w data_type event_item counterpart_item = w4"
      unfolding cp using ok u1 u2 by (cases r3) auto
    from fin[OF this] obtain us where
      us: "calls (complete_pair env w data_type event_item counterpart_item) = calls w2 @ us"
        "list_all is_update us"
        "c \<in> set (rows (complete_pair env w data_type event_item counterpart_item))"
      by blast
    let ?new = "replicate k (Put c False) @ [Put c True] @ us"
    have "calls (complete_pair env w data_type event_item counterpart_item) = calls w @ ?new"
      using us(1) c2 by simp
    moreover have "marks_after_write False ?new"
      by (simp add: marks_after_write_failed_puts marks_after_write_updates[OF us(2)])
    moreover have "list_all is_write ?new"
      using upd_w[OF us(2)] by (auto simp: list_all_iff)
    moreover have "set (written_items ?new) \<subseteq>
        set (rows (complete_pair env w data_type event_item counterpart_item))"
      using us(3) by (simp add: written_items_failed_puts written_items_updates[OF us(2)])
    ultimately show ?thesis by blast
  next
    assume n: "calls w2 = calls w1 @ replicate (nat (3 - 0)) (Put c False)"
      and ok: "ok = Some False"
    have c2: "calls w2 = calls w @ replicate (nat 3) (Put c False)"
      using n by (simp add: w1c)
    have "complete_pair env w data_type event_item counterpart_item = w2"
      unfolding cp using ok by simp
    moreover have "marks_after_write False (replicate (nat 3) (Put c False))"
      using marks_after_write_failed_puts[of False "nat 3" c "[]"] by simp
    moreover have "written_items (replicate (nat 3) (Put c False)) = []"
      using written_items_failed_puts[of "nat 3" c "[]"] by simp
    moreover have "list_all is_write (replicate (nat 3) (Put c False))"
      by (simp add: list_all_iff)
    ultimately show ?thesis using c2 by auto
  qed
qed

section \<open>One record of a batch\<close>

lemma decode_image_other:
  "decode_image dec acc img = Some ev \<Longrightarrow> k \<notin> fst ` set img \<Longrightarrow> map_of ev k = map_of acc k"
proof (induction img arbitrary: acc)
  case Nil
  then show ?case by simp
next
  case (Cons p img)
  obtain a x where p: "p = (a, x)" by (cases p)
  from Cons.prems have ka: "k \<noteq> a" and kr: "k \<notin> fst ` set img" by (auto simp: p)
  show ?case
  proof (cases x)
    case (AttrS s)
    with Cons.prems p have "decode_image dec (AList.update a (PStr s) acc) img = Some ev" by simp
    from Cons.IH[OF this kr] ka show ?thesis by (simp add: update_conv')
  next
    case (AttrN n)
    with Cons.prems p obtain d where d: "dec n = Some d"
      and "decode_image dec (AList.update a (PNum d) acc) img = Some ev"
      by (auto split: option.splits)
    from Cons.IH[OF this(2) kr] ka show ?thesis by (simp add: update_conv')
  next
    case (AttrBOOL b)
    with Cons.prems p have "decode_image dec (AList.update a (PBool b) acc) img = Some ev" by simp
    from Cons.IH[OF this kr] ka show ?thesis by (simp add: update_conv')
  next
    case AttrNULL
    with Cons.prems p have "decode_image dec (AList.update a PNone acc) img = Some ev" by simp
    from Cons.IH[OF this kr] ka show ?thesis by (simp add: update_conv')
  next
    case AttrOther
    with Cons.prems p have "decode_image dec acc img = Some ev" by simp
    from Cons.IH[OF this kr] show ?thesis .
  qed
qed

lemma decode_image_string:
  "decode_image dec acc img = Some ev \<Longrightarrow> distinct (map fst img) \<Longrightarrow>
   map_of img k = Some (AttrS s) \<Longrightarrow> map_of ev k = Some (PStr s)"
proof (induction img arbitrary: acc)
  case Nil
  then show ?case by simp
next
  case (Cons p img)
  obtain a x where p: "p = (a, x)" by (cases p)
  from Cons.prems(2) have d: "distinct (map fst img)" and a: "a \<notin> fst ` set img"
    by (auto simp: p)
  show ?case
  proof (cases "k = a")
    case True
    with Cons.prems(3) p have x: "x = AttrS s" by simp
    with Cons.prems(1) p have "decode_image dec (AList.update a (PStr s) acc) img = Some ev"
      by simp
    from decode_image_other[OF this a] show ?thesis using True by (simp add: update_conv')
  next
    case False
    with Cons.prems(3) p have m: "map_of img k = Some (AttrS s)" by simp
    from Cons.prems(1) p obtain acc' where "decode_image dec acc' img = Some ev"
      by (cases x) (auto split: option.splits)
    from Cons.IH[OF this d m] show ?thesis .
  qed
qed

lemma matches_raw_item: "matches p (''RAW#'' @ x) it \<Longrightarrow> raw_item it"
  by (auto simp: matches_def raw_item_def prefix_def split: option.splits pyval.splits)

lemma find_counterpart_event_effect:
  assumes "find_counterpart_event w pk data_type = (cp, w1)"
  shows "(\<exists>pre ok. calls w1 = calls w @ [Query pk pre ok]) \<and>
         rows w1 = rows w \<and> (\<forall>it. cp = Some it \<longrightarrow> raw_item it)"
proof -
  let ?pre = "''RAW#'' @ (if data_type = ''trip_start'' then ''trip_end'' else ''trip_start'') @ ''#''"
  obtain r w2 where q: "query w pk ?pre = (r, w2)" by fastforce
  from assms q have cp: "cp = counterpart_of r" and w1: "w1 = w2"
    by (simp_all add: find_counterpart_event_def Let_def)
  from q have c: "\<exists>ok. calls w2 = calls w @ [Query pk ?pre ok]" and rw: "rows w2 = rows w"
    by (auto simp: query_def next_fault_def log_call_def Let_def
             split: list.splits if_splits option.splits)
  have raw: "raw_item it" if "cp = Some it" for it
  proof -
    from that cp obtain its where r: "r = QResponse (Some its)" and its: "it \<in> set its"
      by (auto simp: counterpart_of_def split: query_result.splits option.splits list.splits)
    from q r obtain p where "its = filter (matches p ?pre) (rows w)"
      by (auto simp: query_def next_fault_def log_call_def Let_def
               split: list.splits if_splits option.splits)
    with its have "matches p ?pre it" by simp
    then show ?thesis by (rule matches_raw_item)
  qed
  from c rw raw show ?thesis unfolding w1 by auto
qed

lemma process_record_effect:
  assumes "wf_record r"
  shows "\<exists>new. calls (process_record env w r) = calls w @ new \<and>
           marks_after_write False new \<and>
           set (written_items new) \<subseteq> set (rows (process_record env w r))"
proof -
  have skip: "process_record env w r = w \<Longrightarrow> ?thesis"
    by (rule exI[of _ "[]"]) simp
  show ?thesis
  proof (cases "eventName r \<noteq> ''INSERT''")
    case True
    then show ?thesis by (intro skip) (simp add: process_record_def)
  next
    case ins: False
    show ?thesis
    proof (cases "dynamodb r")
      case NoDynamodb
      then show ?thesis using ins by (intro skip) (simp add: process_record_def)
    next
      case NoNewImage
      then show ?thesis using ins by (intro skip) (simp add: process_record_def)
    next
      case (NewImage img)
      define sk where "sk = (case get_S img ''SK'' of None \<Rightarrow> [] | Some s \<Rightarrow> s)"
      have d: "distinct (map fst img)" using assms NewImage by (simp add: wf_record_def)
      show ?thesis
      proof (cases "prefix ''RAW#'' sk")
        case False
        then show ?thesis using ins NewImage
          by (intro skip) (simp add: process_record_def sk_def)
      next
        case raw: True
        then have "sk \<noteq> []" by auto
        then have sks: "map_of img ''SK'' = Some (AttrS sk)"
          by (auto simp: sk_def get_S_def split: option.splits attr.splits)
        show ?thesis
        proof (cases "get_S img ''data_type''")
          case None
          then show ?thesis using ins NewImage raw
            by (intro skip) (simp add: process_record_def sk_def)
        next
          case (Some data_type)
          show ?thesis
          proof (cases "data_type = [] \<or> data_type \<notin> set [''trip_start'', ''trip_end'']")
            case True
            then show ?thesis using ins NewImage raw Some
              by (intro skip) (simp add: process_record_def sk_def)
          next
            case kind: False
            show ?thesis
            proof (cases "decode_image (to_decimal env) [] img")
              case None
              then show ?thesis using ins NewImage raw Some kind
                by (intro skip) (simp add: process_record_def sk_def)
            next
              case ev: (Some event_item)
              obtain cp w1 where f: "find_counterpart_event w (get_S img ''PK'') data_type = (cp, w1)"
                by fastforce
              have pr: "process_record env w r =
                (case cp of None \<Rightarrow> w1
                 | Some c \<Rightarrow> if c = [] then w1
                     else complete_pair env w1 data_type event_item c)"
                using ins NewImage raw Some kind ev f
                by (simp add: process_record_def sk_def Let_def)
              from find_counterpart_event_effect[OF f] obtain pre ok where
                q0: "calls w1 = calls w @ [Query (get_S img ''PK'') pre ok]"
                and rawcp: "\<And>it. cp = Some it \<Longrightarrow> raw_item it"
                by auto
              define q :: "'a call" where "q = Query (get_S img ''PK'') pre ok"
              have q: "calls w1 = calls w @ [q]" using q0 by (simp add: q_def)
              have only_query: "process_record env w r = w1 \<Longrightarrow> ?thesis"
                by (rule exI[of _ "[q]"]) (simp add: q q_def)
              show ?thesis
              proof (cases cp)
                case None
                then show ?thesis by (intro only_query) (simp add: pr)
              next
                case c: (Some c)
                show ?thesis
                proof (cases "c = []")
                  case True
                  then show ?thesis using c by (intro only_query) (simp add: pr)
                next
                  case False
                  then have pr': "process_record env w r =
                      complete_pair env w1 data_type event_item c"
                    using c by (simp add: pr)
                  have re: "raw_item event_item"
                    using decode_image_string[OF ev d sks] raw by (simp add: raw_item_def)
                  from complete_pair_effect[OF re rawcp[OF c], of env w1 data_type]
                  obtain new where n:
                    "calls (complete_pair env w1 data_type event_item c) = calls w1 @ new"
                    "marks_after_write False new"
                    "set (written_items new) \<subseteq>
                       set (rows (complete_pair env w1 data_type event_item c))"
                    by blast
                  have m: "marks_after_write False (q # new)"
                    using n(2) by (simp add: q_def)
                  have wi: "written_items (q # new) = written_items new"
                    by (simp add: q_def)
                  show ?thesis unfolding pr'
                    by (rule exI[of _ "q # new"]) (use n q m wi in simp)
                qed
              qed
            qed
          qed
        qed
      qed
    qed
  qed
qed

section \<open>Claims on the dispatcher and the writer\<close>

lemma new_calls_append: "calls w' = calls w @ new \<Longrightarrow> new_calls w w' = new"
  by (simp add: new_calls_def)

text \<open>
  Claim C8. In the processing of one record, every marking call comes after a write of
  the completed trip that succeeded, and every item written with success is in the table
  when the processing ends, whatever the marking calls did.
\<close>

theorem C8_marking_after_write_keeps_record:
  assumes "wf_record r"
  shows "marks_after_write False (new_calls w (process_record env w r)) \<and>
         set (written_items (new_calls w (process_record env w r))) \<subseteq>
           set (rows (process_record env w r))"
proof -
  from process_record_effect[OF assms, of env w] obtain new where
    n: "calls (process_record env w r) = calls w @ new" "marks_after_write False new"
       "set (written_items new) \<subseteq> set (rows (process_record env w r))"
    by blast
  from new_calls_append[OF n(1)] n(2,3) show ?thesis by simp
qed

lemma process_record_unrecognised:
  assumes "declared_kind r \<notin> {Some ''trip_start'', Some ''trip_end''}"
  shows "process_record env w r = w"
  using assms
  by (auto simp: process_record_def declared_kind_def Let_def
           split: ddb_part.splits option.splits)

lemma find_counterpart_event_no_identifier:
  "fst (find_counterpart_event w None data_type) = None \<and>
   rows (snd (find_counterpart_event w None data_type)) = rows w \<and>
   new_calls w (snd (find_counterpart_event w None data_type)) =
     [Query None (''RAW#'' @ (if data_type = ''trip_start'' then ''trip_end'' else ''trip_start'') @ ''#'') False]"
  by (auto simp: find_counterpart_event_def query_def next_fault_def log_call_def Let_def
        counterpart_of_def new_calls_def split: list.splits)

lemma process_record_shape:
  "process_record env w r = w \<or>
   (\<exists>img data_type event_item. dynamodb r = NewImage img \<and>
      process_record env w r =
        (case find_counterpart_event w (get_S img ''PK'') data_type of
           (None, w1) \<Rightarrow> w1
         | (Some cp, w1) \<Rightarrow>
             if cp = [] then w1 else complete_pair env w1 data_type event_item cp))"
  by (auto simp: process_record_def Let_def split: ddb_part.splits option.splits)

lemma process_record_no_identifier:
  assumes "record_identifier r = None"
  shows "rows (process_record env w r) = rows w \<and>
         no_write (new_calls w (process_record env w r))"
  using process_record_shape[of env w r]
proof (elim disjE exE conjE)
  assume "process_record env w r = w"
  then show ?thesis by (simp add: new_calls_def no_write_def)
next
  fix img data_type event_item
  assume img: "dynamodb r = NewImage img"
    and pr: "process_record env w r =
        (case find_counterpart_event w (get_S img ''PK'') data_type of
           (None, w1) \<Rightarrow> w1
         | (Some cp, w1) \<Rightarrow>
             if cp = [] then w1 else complete_pair env w1 data_type event_item cp)"
  from assms img have pk: "get_S img ''PK'' = None" by (simp add: record_identifier_def)
  obtain cp w1 where f: "find_counterpart_event w None data_type = (cp, w1)" by fastforce
  from find_counterpart_event_no_identifier[of w data_type] f
  have "cp = None" "rows w1 = rows w" "no_write (new_calls w w1)"
    by (simp_all add: no_write_def)
  then show ?thesis unfolding pr pk f by simp
qed

text \<open>
  Claim C6, as the code has it. A record whose declared kind is missing or is not one of
  the two recognised kinds is skipped before the correlation stage: it changes nothing, no
  call is made for it, and the batch is processed as it is without the record. A record
  whose identifier is absent is not filtered there; no write is made for it and the table
  keeps its items.
\<close>

theorem C6_unrecognised_kind_skipped:
  "(declared_kind r \<notin> {Some ''trip_start'', Some ''trip_end''} \<longrightarrow>
      process_record env w r = w \<and>
      new_calls w (process_record env w r) = [] \<and>
      lambda_handler env w (Some (before @ r # after)) =
        lambda_handler env w (Some (before @ after))) \<and>
   (record_identifier r = None \<longrightarrow>
      rows (process_record env w r) = rows w \<and>
      no_write (new_calls w (process_record env w r)))"
proof (intro conjI impI)
  assume k: "declared_kind r \<notin> {Some ''trip_start'', Some ''trip_end''}"
  show "process_record env w r = w" by (rule process_record_unrecognised[OF k])
  then show "new_calls w (process_record env w r) = []" by (simp add: new_calls_def)
  show "lambda_handler env w (Some (before @ r # after)) =
        lambda_handler env w (Some (before @ after))"
    by (simp add: lambda_handler_def process_record_unrecognised[OF k])
next
  assume i: "record_identifier r = None"
  from process_record_no_identifier[OF i, of env w]
  show "rows (process_record env w r) = rows w"
    and "no_write (new_calls w (process_record env w r))" by simp_all
qed

section \<open>Runs of the dispatcher on the sample inputs\<close>

lemmas eval_store = process_record_def get_S_def find_counterpart_event_def query_def
  next_fault_def log_call_def counterpart_of_def matches_def complete_pair_def
  start_end_roles_def read_ambient_def utcnow_def uuid4_def put_item_with_retry_def
  put_item_with_retry_from.simps put_item_def item_key_def update_event_status_def
  update_item_def new_calls_def world_T1_def env_T1_def start_image_T1_def record_T1_def
  record_no_pk_def world_marking_fails_def no_decimal_def record_other_kind_def

lemma run_marking_fails:
  "new_calls world_marking_fails (process_record env_T1 world_marking_fails record_T1) =
   [Query (Some ''T1'') ''RAW#trip_end#'' True,
    Put [(''PK'', PStr ''T1''), (''SK'', PStr ''COMPLETED#t1''),
       (''trip_id'', PStr ''T1''), (''status'', PStr ''completed''),
       (''processing_timestamp_lambda2'', PStr ''c1''),
       (''correlation_id'', PStr ''uuid-a''),
       (''data_type'', PStr ''completed_trip''), (''fare'', PNum 12),
       (''end_fare'', PNum 13), (''dropoff_datetime'', PStr ''t1'')] True,
    Update (PStr ''T1'') (PStr ''RAW#trip_start#t0'') False,
    Update (PStr ''T1'') (PStr ''RAW#trip_end#t1'') False]"
  by (simp add: eval_store eval_merge)

theorem C8_marking_after_write_keeps_record_witness:
  "wf_record record_T1 \<and>
   marks_after_write False
     (new_calls world_marking_fails (process_record env_T1 world_marking_fails record_T1)) \<and>
   set (written_items
     (new_calls world_marking_fails (process_record env_T1 world_marking_fails record_T1))) \<subseteq>
     set (rows (process_record env_T1 world_marking_fails record_T1)) \<and>
   written_items
     (new_calls world_marking_fails (process_record env_T1 world_marking_fails record_T1)) \<noteq> [] \<and>
   Update (PStr ''T1'') (PStr ''RAW#trip_start#t0'') False \<in>
     set (new_calls world_marking_fails (process_record env_T1 world_marking_fails record_T1)) \<and>
   Update (PStr ''T1'') (PStr ''RAW#trip_end#t1'') False \<in>
     set (new_calls world_marking_fails (process_record env_T1 world_marking_fails record_T1))"
proof -
  have wf: "wf_record record_T1"
    by (simp add: wf_record_def record_T1_def start_image_T1_def)
  from C8_marking_after_write_keeps_record[OF wf, of world_marking_fails env_T1] wf
  show ?thesis by (simp add: run_marking_fails)
qed

theorem C6_unrecognised_kind_skipped_witness:
  "declared_kind record_other_kind \<notin> {Some ''trip_start'', Some ''trip_end''} \<and>
   process_record env_T1 world_T1 record_other_kind = world_T1 \<and>
   lambda_handler env_T1 world_T1 (Some ([record_T1] @ record_other_kind # [record_T1])) =
     lambda_handler env_T1 world_T1 (Some ([record_T1] @ [record_T1])) \<and>
   record_identifier record_no_pk = None \<and>
   rows (process_record env_T1 world_T1 record_no_pk) = rows world_T1 \<and>
   no_write (new_calls world_T1 (process_record env_T1 world_T1 record_no_pk))"
proof -
  have k: "declared_kind record_other_kind \<notin> {Some ''trip_start'', Some ''trip_end''}"
    by (simp add: declared_kind_def record_other_kind_def get_S_def)
  have i: "record_identifier record_no_pk = None"
    by (simp add: record_identifier_def record_no_pk_def start_image_T1_def get_S_def)
  from C6_unrecognised_kind_skipped[of record_other_kind env_T1 world_T1 "[record_T1]" "[record_T1]"]
    C6_unrecognised_kind_skipped[of record_no_pk env_T1 world_T1 "[]" "[]"] k i
  show ?thesis by simp
qed

text \<open>
  Claim C6 as stated fails: for a record of a recognised kind whose identifier is absent,
  the handler calls the locator, which queries the table with the absent identifier.
\<close>

theorem C6_counterexample:
  "record_identifier record_no_pk = None \<and>
   declared_kind record_no_pk = Some ''trip_start'' \<and>
   new_calls world_T1 (process_record env_T1 world_T1 record_no_pk) =
     [Query None ''RAW#trip_end#'' False]"
  by (simp add: eval_store record_identifier_def declared_kind_def)

section \<open>The aggregation job: which items it aggregates\<close>

lemma convert_page_all:
  "list_all (\<lambda>it. convert_item to_float [] it \<noteq> None) its \<Longrightarrow>
   convert_page to_float items its = Some (items @ map (scanned_row to_float) its)"
proof (induction its arbitrary: items)
  case Nil
  show ?case by simp
next
  case (Cons it its)
  from Cons.prems obtain p where p: "convert_item to_float [] it = Some p"
    and rest: "list_all (\<lambda>it. convert_item to_float [] it \<noteq> None) its" by auto
  show ?case by (simp add: p Cons.IH[OF rest] scanned_row_def)
qed

lemma scan_of_pages_all:
  "list_all (\<lambda>it. convert_item to_float [] it \<noteq> None) (concat pages) \<Longrightarrow>
   scan_dynamodb_table to_float items (scan_of_pages pages) =
     Some (Some (items @ map (scanned_row to_float) (concat pages)))"
proof (induction pages arbitrary: items rule: scan_of_pages.induct)
  case 1
  show ?case by simp
next
  case (2 p)
  then show ?case by (simp add: convert_page_all)
next
  case (3 p q ps)
  from "3.prems" have a: "list_all (\<lambda>it. convert_item to_float [] it \<noteq> None) p"
    and b: "list_all (\<lambda>it. convert_item to_float [] it \<noteq> None) (concat (q # ps))"
    by simp_all
  show ?case using "3.IH"[OF b] by (simp add: convert_page_all[OF a])
qed

lemma clean_Some_iff: "(clean pd r \<noteq> None) = usable pd r"
  by (auto simp: clean_def usable_def split: option.splits)

lemma length_clean_frame: "length (clean_frame pd items) = length (filter (usable pd) items)"
  by (induction items) (auto simp: clean_frame_def clean_Some_iff[symmetric]
        split: option.splits)

lemma clean_in_frame:
  "r \<in> set items \<Longrightarrow> clean pd r = Some cr \<Longrightarrow> cr \<in> set (clean_frame pd items)"
  by (induction items) (auto simp: clean_frame_def split: option.splits)

lemma kpi_for_usable_row:
  fixes pd :: "('d::linorder, 'f) pandas"
  assumes "r \<in> set items" and "usable pd r"
  shows "\<exists>k \<in> set (daily_kpis pd (clean_frame pd items)).
           Some (kpi_date k) = to_date pd (cell_of r ''pickup_datetime'') \<and>
           (cell_of r ''trip_id'' = CNone \<or> 1 \<le> trip_count k)"
proof -
  from assms(2) obtain d x where d: "to_date pd (cell_of r ''pickup_datetime'') = Some d"
    and x: "to_numeric pd (cell_of r ''fare_amount'') = Some x"
    by (auto simp: usable_def)
  define cr where "cr = \<lparr>trip_id_cell = cell_of r ''trip_id'', pickup_date = d, fare_amount = x\<rparr>"
  have c: "clean pd r = Some cr" by (simp add: clean_def d x cr_def)
  let ?df = "clean_frame pd items"
  have inf: "cr \<in> set ?df" by (rule clean_in_frame[OF assms(1) c])
  let ?g = "filter (\<lambda>r. pickup_date r = d) ?df"
  let ?k = "kpi_of_group pd d ?g"
  have ing: "cr \<in> set ?g" using inf by (simp add: cr_def)
  have "d \<in> set (map pickup_date ?df)" using inf by (force simp: cr_def)
  then have "?k \<in> set (daily_kpis pd ?df)" by (simp add: daily_kpis_def)
  moreover have "kpi_date ?k = d" by (simp add: kpi_of_group_def)
  moreover have "cell_of r ''trip_id'' = CNone \<or> 1 \<le> trip_count ?k"
  proof (cases "cell_of r ''trip_id'' = CNone")
    case True
    then show ?thesis by simp
  next
    case False
    then have "cr \<in> set (filter (\<lambda>r. trip_id_cell r \<noteq> CNone) ?g)"
      using ing by (simp add: cr_def)
    then have "filter (\<lambda>r. trip_id_cell r \<noteq> CNone) ?g \<noteq> []"
      by (metis empty_iff list.set(1))
    then have "1 \<le> length (filter (\<lambda>r. trip_id_cell r \<noteq> CNone) ?g)"
      by (simp add: Suc_le_eq)
    then show ?thesis by (simp add: kpi_of_group_def)
  qed
  ultimately show ?thesis using d by (intro bexI[of _ ?k]) simp_all
qed

text \<open>
  Claim C9, as the code has it. The job scans every item of the table and filters neither
  on \<open>SK\<close> nor on \<open>data_type\<close>: the rows it aggregates are all scanned items,
  completed trips and raw events alike, whose \<open>pickup_datetime\<close> parses and whose
  \<open>fare_amount\<close> is numeric, and each such item has a KPI row of its date (which counts
  it when its \<open>trip_id\<close> is not null).
\<close>

theorem C9_job_aggregates_every_item:
  fixes pd :: "('d::linorder, 'f) pandas"
  assumes "list_all (\<lambda>it. convert_item to_float [] it \<noteq> None) (concat pages)"
  shows
    "scan_dynamodb_table to_float [] (scan_of_pages pages) =
       Some (Some (map (scanned_row to_float) (concat pages))) \<and>
     glue_job to_float pd (scan_of_pages pages) =
       (if concat pages = [] then None
        else Some (length (filter (usable pd) (map (scanned_row to_float) (concat pages))),
                   daily_kpis pd (clean_frame pd (map (scanned_row to_float) (concat pages))))) \<and>
     (\<forall>it \<in> set (concat pages). usable pd (scanned_row to_float it) \<longrightarrow>
        (\<exists>k \<in> set (daily_kpis pd (clean_frame pd (map (scanned_row to_float) (concat pages)))).
           Some (kpi_date k) = to_date pd (cell_of (scanned_row to_float it) ''pickup_datetime'') \<and>
           (cell_of (scanned_row to_float it) ''trip_id'' = CNone \<or> 1 \<le> trip_count k)))"
proof (intro conjI ballI impI)
  show scan: "scan_dynamodb_table to_float [] (scan_of_pages pages) =
       Some (Some (map (scanned_row to_float) (concat pages)))"
    using scan_of_pages_all[OF assms, of "[]"] by simp
  show "glue_job to_float pd (scan_of_pages pages) =
       (if concat pages = [] then None
        else Some (length (filter (usable pd) (map (scanned_row to_float) (concat pages))),
                   daily_kpis pd (clean_frame pd (map (scanned_row to_float) (concat pages)))))"
    by (simp add: glue_job_def scan length_clean_frame Let_def)
next
  fix it
  assume "it \<in> set (concat pages)" and u: "usable pd (scanned_row to_float it)"
  then have "scanned_row to_float it \<in> set (map (scanned_row to_float) (concat pages))"
    by simp
  from kpi_for_usable_row[OF this u]
  show "\<exists>k \<in> set (daily_kpis pd (clean_frame pd (map (scanned_row to_float) (concat pages)))).
           Some (kpi_date k) = to_date pd (cell_of (scanned_row to_float it) ''pickup_datetime'') \<and>
           (cell_of (scanned_row to_float it) ''trip_id'' = CNone \<or> 1 \<le> trip_count k)" .
qed

lemmas eval_job = glue_job_def scanned_row_def raw_start_image_def sample_float_def
  sample_pandas_def ensure_required_def cell_of_def clean_frame_def clean_def daily_kpis_def
  kpi_of_group_def usable_def Let_def

lemma sample_row:
  "scanned_row sample_float raw_start_image =
   [(''PK'', CStr ''T7''), (''SK'', CStr ''RAW#trip_start#t0''),
    (''data_type'', CStr ''trip_start''), (''status'', CStr ''pending''),
    (''trip_id'', CStr ''T7''), (''pickup_datetime'', CStr ''2024-05-01 10:00:00''),
    (''fare_amount'', CNum 12)]"
  by (simp add: eval_job)

theorem C9_job_aggregates_every_item_witness:
  "list_all (\<lambda>it. convert_item sample_float [] it \<noteq> None) (concat [[raw_start_image]]) \<and>
   raw_start_image \<in> set (concat [[raw_start_image]]) \<and>
   usable sample_pandas (scanned_row sample_float raw_start_image) \<and>
   glue_job sample_float sample_pandas (scan_of_pages [[raw_start_image]]) =
     Some (1, daily_kpis sample_pandas
       (clean_frame sample_pandas [scanned_row sample_float raw_start_image])) \<and>
   (\<exists>k \<in> set (daily_kpis sample_pandas
        (clean_frame sample_pandas [scanned_row sample_float raw_start_image])).
      kpi_date k = 20240501 \<and> 1 \<le> trip_count k)"
proof -
  have h: "list_all (\<lambda>it. convert_item sample_float [] it \<noteq> None) (concat [[raw_start_image]])"
    by (simp add: raw_start_image_def sample_float_def)
  have u: "usable sample_pandas (scanned_row sample_float raw_start_image)"
    unfolding sample_row by (simp add: usable_def cell_of_def sample_pandas_def)
  have d: "to_date sample_pandas
      (cell_of (scanned_row sample_float raw_start_image) ''pickup_datetime'') = Some 20240501"
    unfolding sample_row by (simp add: cell_of_def sample_pandas_def)
  have t: "cell_of (scanned_row sample_float raw_start_image) ''trip_id'' \<noteq> CNone"
    unfolding sample_row by (simp add: cell_of_def)
  note inst = C9_job_aggregates_every_item[OF h, of sample_pandas]
  from inst have g: "glue_job sample_float sample_pandas (scan_of_pages [[raw_start_image]]) =
     Some (1, daily_kpis sample_pandas
       (clean_frame sample_pandas [scanned_row sample_float raw_start_image]))"
    using u by simp
  from inst u d t have k: "\<exists>k \<in> set (daily_kpis sample_pandas
        (clean_frame sample_pandas [scanned_row sample_float raw_start_image])).
      kpi_date k = 20240501 \<and> 1 \<le> trip_count k"
    by auto
  from h u g k show ?thesis by simp
qed

text \<open>
  Claim C9 as stated fails: on a table that holds one raw start event and no completed
  trip, the job publishes a KPI row computed from the raw event.
\<close>

theorem C9_counterexample:
  "map_of raw_start_image ''SK'' = Some (AttrS ''RAW#trip_start#t0'') \<and>
   map_of raw_start_image ''data_type'' = Some (AttrS ''trip_start'') \<and>
   glue_job sample_float sample_pandas (scan_of_pages [[raw_start_image]]) =
     Some (1, [\<lparr>kpi_date = 20240501, total_fare = 12, trip_count = 1,
                average_fare = 12, maximum_fare = 12, minimum_fare = 12\<rparr>])"
  by (simp add: eval_job)

end
